theory Spec2Isabelle
  imports Complex_Main "HOL-Library.Multiset" "HOL-Library.Stream" "HOL-Library.Word"
begin

section \<open>Python values, errors and slicing\<close>

text \<open>
  Every raise of the Python source is a value of \<open>py_error\<close>; a fallible function returns
  \<open>py_error + 'a\<close> with \<open>Inl\<close> for the exception. \<open>AttributeError\<close> stands for the
  failure of the augmentor chain on the \<open>None\<close> that \<open>cv2.imread\<close> returns for an unreadable
  file, \<open>cv2_error\<close> for the exception OpenCV raises.
\<close>

datatype py_error =
    AssertionError
  | TypeError
  | ZeroDivisionError
  | ValueError
  | AttributeError
  | cv2_error

text \<open>
  Python's \<open>xs[start:stop]\<close>: a negative index counts from the end, and every index is
  clamped into \<open>0..len(xs)\<close>; the slice is empty when \<open>stop\<close> does not exceed \<open>start\<close>.
\<close>

definition slice_index :: "nat \<Rightarrow> int \<Rightarrow> nat" where
  "slice_index n i = (if i < 0 then nat (max 0 (int n + i)) else min n (nat i))"

definition py_slice :: "'a list \<Rightarrow> int \<Rightarrow> int \<Rightarrow> 'a list" where
  "py_slice xs start stop =
     (let s = slice_index (length xs) start;
          e = slice_index (length xs) stop
      in take (e - s) (drop s xs))"

section \<open>Images, random state and augmentors\<close>

text \<open>
  An image is the array \<open>cv2.imread\<close> decodes: rows of pixels, a pixel being three unsigned
  bytes (B, G, R). The random state of an augmentor (\<open>self.rng\<close>) is the stream of the unit
  draws it has still to hand out; every draw returns the rest of the stream.
\<close>

type_synonym pixel = "8 word \<times> 8 word \<times> 8 word"
type_synonym image = "pixel list list"
type_synonym rng = "real stream"
type_synonym augmentor = "image \<Rightarrow> rng \<Rightarrow> py_error + image \<times> rng"

text \<open>A validation sample of the index file: (file name, class label).\<close>

type_synonym sample = "string \<times> int"

text \<open>
  \<open>imgaug.AugmentorList(augmentors).augment(im)\<close>: the augmentors run in list order, each on
  the image the previous one returned; the first exception ends the chain.
\<close>

fun AugmentorList_augment :: "augmentor list \<Rightarrow> image \<Rightarrow> rng \<Rightarrow> py_error + image \<times> rng" where
  "AugmentorList_augment [] im g = Inr (im, g)"
| "AugmentorList_augment (a # as) im g =
     (case a im g of
        Inl e \<Rightarrow> Inl e
      | Inr (im', g') \<Rightarrow> AugmentorList_augment as im' g')"

text \<open>
  \<open>mapf\<close> of \<open>get_val_dataflow\<close> (lines 132-136). \<open>imread\<close> is the file system seen through
  \<open>cv2.imread(fname, cv2.IMREAD_COLOR)\<close>: \<open>None\<close> for a file that cannot be decoded.
\<close>

definition mapf ::
  "(string \<Rightarrow> image option) \<Rightarrow> augmentor list \<Rightarrow> sample \<Rightarrow> rng \<Rightarrow> py_error + (image \<times> int) \<times> rng"
where
  "mapf imread augmentors dp g =
     (case dp of (fname, cls) \<Rightarrow>
        (case imread fname of
           None \<Rightarrow> Inl AttributeError
         | Some im \<Rightarrow>
             (case AugmentorList_augment augmentors im g of
                Inl e \<Rightarrow> Inl e
              | Inr (im', g') \<Rightarrow> Inr ((im', cls), g'))))"

section \<open>The validation dataflow\<close>

text \<open>
  The dataflows \<open>get_val_dataflow\<close> builds, as the constructor calls of the source with
  their arguments: \<open>ILSVRC12Files(datadir, name, shuffle)\<close>, \<open>DataFromList(lst, shuffle)\<close>,
  \<open>MultiThreadMapData(ds, nr_thread, map_func, buffer_size, strict)\<close> and
  \<open>BatchData(ds, batch_size, remainder)\<close>.
\<close>

datatype dataflow =
    ILSVRC12Files string string bool
  | DataFromList "sample list" bool
  | MultiThreadMapData dataflow int "sample \<Rightarrow> rng \<Rightarrow> py_error + (image \<times> int) \<times> rng" nat bool
  | BatchData dataflow int bool

text \<open>
  What the function reads from outside: the number of CPUs, the (file, label) list that
  \<open>ILSVRC12Files(datadir, 'val', shuffle=False)\<close> yields, and the image files.
\<close>

record env =
  cpu_count :: nat
  ILSVRC12_val :: "string \<Rightarrow> sample list"
  cv2_imread :: "string \<Rightarrow> image option"

text \<open>
  \<open>ds.size()\<close> for the two dataflows it is called on (line 138): the number of files of
  the validation index, and the length of the list. The source asks no other dataflow for
  its size, and none is given here.
\<close>

fun ds_size :: "env \<Rightarrow> dataflow \<Rightarrow> nat" where
  "ds_size E (ILSVRC12Files datadir name shuffle) = length (ILSVRC12_val E datadir)"
| "ds_size E (DataFromList lst shuffle) = length lst"

text \<open>The visible effects of the call, in order: constructing and reading the file list, and the two log lines.\<close>

datatype event =
    New_ILSVRC12Files string string bool
  | Files_get_data
  | Info_number_of_validation_data nat
  | Info_local_validation_split int int

text \<open>Lines 124-126: the index range of one shard of \<open>n\<close> files.\<close>

definition split_range :: "nat \<Rightarrow> int \<Rightarrow> int \<Rightarrow> int \<times> int" where
  "split_range n num_splits split_index =
     (let split_size = int n div num_splits;
          start = split_size * split_index;
          stop = split_size * (split_index + 1);
          stop = min stop (int n)
      in (start, stop))"

text \<open>Lines 130-139: the map stage and the batching stage put on a source dataflow.\<close>

definition val_stages :: "env \<Rightarrow> int \<Rightarrow> augmentor list \<Rightarrow> int \<Rightarrow> dataflow \<Rightarrow> dataflow" where
  "val_stages E batch_size augmentors parallel ds =
     BatchData
       (MultiThreadMapData ds parallel (mapf (cv2_imread E) augmentors)
          (min 2000 (ds_size E ds)) True)
       batch_size True"

text \<open>
  \<open>get_val_dataflow(datadir, batch_size, augmentors, parallel, num_splits, split_index)\<close>;
  the result is the exception or the dataflow returned, with the effects made on the way.
  \<open>augmentors\<close> is a list by its type, so the \<open>isinstance\<close> assertion holds. A \<open>split_index\<close>
  left at its default \<open>None\<close> cannot be compared with an integer.
\<close>

definition get_val_dataflow ::
  "env \<Rightarrow> string option \<Rightarrow> int \<Rightarrow> augmentor list \<Rightarrow> int option \<Rightarrow> int option \<Rightarrow> int option
     \<Rightarrow> (py_error + dataflow) \<times> event list"
where
  "get_val_dataflow E datadir batch_size augmentors parallel num_splits split_index =
     (case datadir of
        None \<Rightarrow> (Inl AssertionError, [])
      | Some dir \<Rightarrow>
          (let parallel = (case parallel of None \<Rightarrow> min 40 (int (cpu_count E)) | Some p \<Rightarrow> p)
           in case num_splits of
                None \<Rightarrow>
                  (Inr (val_stages E batch_size augmentors parallel (ILSVRC12Files dir ''val'' False)),
                   [New_ILSVRC12Files dir ''val'' False])
              | Some n \<Rightarrow>
                  (case split_index of
                     None \<Rightarrow> (Inl TypeError, [])
                   | Some i \<Rightarrow>
                       if \<not> i < n then (Inl AssertionError, [])
                       else
                         (let files = ILSVRC12_val E dir;
                              evs = [New_ILSVRC12Files dir ''val'' False, Files_get_data,
                                     Info_number_of_validation_data (length files)]
                          in if n = 0 then (Inl ZeroDivisionError, evs)
                             else
                               (case split_range (length files) n i of (start, stop) \<Rightarrow>
                                  (Inr (val_stages E batch_size augmentors parallel
                                          (DataFromList (py_slice files start stop) False)),
                                   evs @ [Info_local_validation_split start stop]))))))"

text \<open>
  Lines 124-128 for non-negative arguments: the files of shard \<open>split_index\<close> out of
  \<open>num_splits\<close>.
\<close>

definition shard :: "sample list \<Rightarrow> nat \<Rightarrow> nat \<Rightarrow> sample list" where
  "shard files num_splits split_index =
     (case split_range (length files) (int num_splits) (int split_index) of
        (start, stop) \<Rightarrow> py_slice files start stop)"

text \<open>
  An index of 100 validation files, told apart by their labels, on a machine of 8 CPUs;
  every file decodes to the same image of one pixel.
\<close>

definition val_sample :: "nat \<Rightarrow> sample" where
  "val_sample k = (''val.JPEG'', int k)"

definition env100 :: env where
  "env100 =
     \<lparr>cpu_count = 8,
      ILSVRC12_val = (\<lambda>datadir. map val_sample [0..<100]),
      cv2_imread = (\<lambda>fname. Some [[(1, 2, 3)]])\<rparr>"

section \<open>Batching\<close>

text \<open>
  Modelled from the spec: \<open>BatchData\<close> is a class of the tensorpack library, which is not
  under src/; only its call \<open>BatchData(ds, batch_size, remainder=True)\<close> (line 139) is. The
  spec: "Collects augmented samples into fixed-size groups; the final group may be shorter
  than the configured batch size (remainder kept, not dropped, not padded)", and a batch is
  the pair of the stacked images and the stacked labels. The datapoints are collected in a
  holder that is emitted and emptied when it reaches the batch size; at the end of the
  stream a non-empty holder is emitted when \<open>remainder\<close> is set and dropped otherwise.
\<close>

fun BatchData_iter :: "nat \<Rightarrow> bool \<Rightarrow> 'a list \<Rightarrow> 'a list \<Rightarrow> 'a list list" where
  "BatchData_iter B remainder holder [] =
     (if remainder \<and> holder \<noteq> [] then [holder] else [])"
| "BatchData_iter B remainder holder (dp # ds) =
     (let holder = holder @ [dp]
      in if length holder = B then holder # BatchData_iter B remainder [] ds
         else BatchData_iter B remainder holder ds)"

definition aggregate_batch :: "(image \<times> int) list \<Rightarrow> image list \<times> int list" where
  "aggregate_batch holder = (map fst holder, map snd holder)"

definition BatchData_get_data ::
  "int \<Rightarrow> bool \<Rightarrow> (image \<times> int) list \<Rightarrow> (image list \<times> int list) list"
where
  "BatchData_get_data batch_size remainder ds =
     map aggregate_batch (BatchData_iter (nat batch_size) remainder [] ds)"

text \<open>Seven augmented samples, labelled 0 to 6, of one and the same image.\<close>

definition seven_samples :: "(image \<times> int) list" where
  "seven_samples = map (\<lambda>k. ([[(1, 2, 3)]], k)) [0, 1, 2, 3, 4, 5, 6]"

section \<open>The parallel map stage\<close>

text \<open>
  Modelled from the spec: \<open>MultiThreadMapData\<close> is a class of the tensorpack library, which
  is not under src/; only its call (lines 137-138) is. The spec: "each worker independently
  decodes and augments one sample at a time, writing results into a bounded buffer of
  configurable capacity. Strict mode preserves input order in the buffer at the cost of
  throughput; non-strict mode allows out-of-order completion. [...] each worker owns its
  own random-number state." What the scheduling of the workers decides is given by
  \<open>states k\<close>, the random state of the worker that takes datapoint \<open>k\<close> when it takes it,
  and by \<open>completion\<close>, the indices of the datapoints in the order in which the workers
  finish them. The buffer hands on the results, each the mapped datapoint or the exception
  of the map function, in input order in strict mode and in completion order otherwise.
\<close>

definition map_result ::
  "(sample \<Rightarrow> rng \<Rightarrow> py_error + (image \<times> int) \<times> rng) \<Rightarrow> sample \<Rightarrow> rng \<Rightarrow> py_error + image \<times> int"
where
  "map_result map_func dp g = (case map_func dp g of Inl e \<Rightarrow> Inl e | Inr (out, g') \<Rightarrow> Inr out)"

definition MultiThreadMapData_get_data ::
  "(sample \<Rightarrow> rng \<Rightarrow> py_error + (image \<times> int) \<times> rng) \<Rightarrow> bool \<Rightarrow> nat list \<Rightarrow> (nat \<Rightarrow> rng)
     \<Rightarrow> sample list \<Rightarrow> (py_error + image \<times> int) list"
where
  "MultiThreadMapData_get_data map_func strict completion states inputs =
     map (\<lambda>k. map_result map_func (inputs ! k) (states k))
       (if strict then [0..<length inputs] else filter (\<lambda>k. k < length inputs) completion)"

text \<open>
  The datapoints the two sources of \<open>get_val_dataflow\<close> yield, both constructed with
  \<open>shuffle=False\<close>: the validation index in its order, and the list in its order.
\<close>

fun source_data :: "env \<Rightarrow> dataflow \<Rightarrow> sample list" where
  "source_data E (ILSVRC12Files datadir name False) = ILSVRC12_val E datadir"
| "source_data E (DataFromList lst False) = lst"

text \<open>
  What reaches the batching stage of a dataflow of the shape \<open>get_val_dataflow\<close> returns:
  the output of its map stage run on the datapoints of its source.
\<close>

fun batcher_input :: "env \<Rightarrow> nat list \<Rightarrow> (nat \<Rightarrow> rng) \<Rightarrow> dataflow \<Rightarrow> (py_error + image \<times> int) list" where
  "batcher_input E completion states
     (BatchData (MultiThreadMapData src nr_thread map_func buffer_size strict) batch_size remainder) =
     MultiThreadMapData_get_data map_func strict completion states (source_data E src)"

section \<open>Evaluation on the validation set\<close>

text \<open>
  Modelled from the spec: \<open>RatioCounter\<close> is a class of the tensorpack library
  (\<open>tensorpack.utils.stats\<close>), which is not under src/; \<open>eval_on_ILSVRC12\<close> constructs two
  counters, feeds them and reads their \<open>ratio\<close>. The spec: "Maintains two running ratios
  [...] updated per batch by summing per-sample binary indicators and the batch size; final
  ratio = cumulative-wrong / cumulative-total". A counter holds the two running sums;
  \<open>feed(count, total)\<close> adds its arguments \<open>n\<close> and \<open>t\<close> to them. The spec gives no ratio
  for a total of zero, which is \<open>None\<close> here. The quotient is the exact one, where Python
  rounds it to a float.
\<close>

record RatioCounter =
  cnt :: nat
  tot :: nat

definition RatioCounter_new :: RatioCounter where
  "RatioCounter_new = \<lparr>cnt = 0, tot = 0\<rparr>"

definition feed :: "RatioCounter \<Rightarrow> nat \<Rightarrow> nat \<Rightarrow> RatioCounter" where
  "feed c n t = c\<lparr>tot := tot c + t, cnt := cnt c + n\<rparr>"

definition ratio :: "RatioCounter \<Rightarrow> real option" where
  "ratio c = (if tot c = 0 then None else Some (real (cnt c) / real (tot c)))"

text \<open>
  The outputs \<open>wrong-top1\<close> and \<open>wrong-top5\<close> of one batch (lines 239-247): per sample,
  \<open>logical_not(in_top_k(...))\<close> cast to a float that is 1 when the prediction is wrong and 0
  when it is right. \<open>vec_sum\<close> is \<open>top1.sum()\<close>, the number of wrong samples, and the length
  of the vector is \<open>top1.shape[0]\<close>.
\<close>

type_synonym wrong_vector = "bool list"

definition vec_sum :: "wrong_vector \<Rightarrow> nat" where
  "vec_sum v = sum_list (map of_bool v)"

text \<open>
  The loop of lines 153-156 over the results of the predictor, one pair \<open>(top1, top5)\<close> per
  batch: both counters are fed the batch size read from \<open>top1\<close>.
\<close>

fun eval_loop ::
  "(wrong_vector \<times> wrong_vector) list \<Rightarrow> RatioCounter \<times> RatioCounter \<Rightarrow> RatioCounter \<times> RatioCounter"
where
  "eval_loop [] (acc1, acc5) = (acc1, acc5)"
| "eval_loop ((top1, top5) # rest) (acc1, acc5) =
     (let batch_size = length top1
      in eval_loop rest (feed acc1 (vec_sum top1) batch_size, feed acc5 (vec_sum top5) batch_size))"

text \<open>
  \<open>eval_on_ILSVRC12\<close>, given what \<open>pred.get_result()\<close> yields: the two values it prints, the
  top-1 error and the top-5 error.
\<close>

definition eval_on_ILSVRC12 :: "(wrong_vector \<times> wrong_vector) list \<Rightarrow> real option \<times> real option" where
  "eval_on_ILSVRC12 results =
     (case eval_loop results (RatioCounter_new, RatioCounter_new) of
        (acc1, acc5) \<Rightarrow> (ratio acc1, ratio acc5))"

section \<open>Horizontal flip\<close>

text \<open>
  Modelled from the spec: \<open>imgaug.Flip\<close> is a class of the tensorpack library, which is not
  under src/; only its construction \<open>imgaug.Flip(horiz=True)\<close> (lines 64 and 96) is. The
  spec: "Flips the image left-right with 50% probability; label unchanged." The left-right
  flip reverses every row of pixels; the augmentor takes one unit draw from its random state
  and flips when the draw is below one half.
\<close>

definition hflip :: "image \<Rightarrow> image" where
  "hflip im = map rev im"

definition Flip_horiz :: augmentor where
  "Flip_horiz im g = Inr (if shd g < 1 / 2 then hflip im else im, stl g)"

section \<open>The resize benchmark\<close>









section \<open>Doubles\<close>

text \<open>
  Python floats are IEEE 754 doubles. A double is modelled by the real number it stands
  for, and an arithmetic operation of the source by the exact operation followed by
  \<open>fl64\<close>, the rounding to the nearest number of 53 significant bits, a tie going to the
  one whose last bit is 0. \<open>rne\<close> rounds a real to the nearest integer in that way, and
  \<open>binexp x\<close> is the binary exponent of \<open>x\<close>, the \<open>e\<close> with \<open>2^e \<le> |x| < 2^(e + 1)\<close>. The
  exponent of a double is not bounded here: there is no overflow to infinity and there
  are no subnormal numbers, which concerns magnitudes from \<open>2^1024\<close> on and below
  \<open>2^-1022\<close> only.
\<close>

definition rne :: "real \<Rightarrow> int" where
  "rne x =
     (let f = \<lfloor>x\<rfloor>; r = x - of_int f
      in if r < 1 / 2 then f else if 1 / 2 < r then f + 1 else if even f then f else f + 1)"

definition binexp :: "real \<Rightarrow> int" where
  "binexp x = \<lfloor>log 2 \<bar>x\<bar>\<rfloor>"

definition fl64 :: "real \<Rightarrow> real" where
  "fl64 x =
     (if x = 0 then 0
      else of_int (rne (x * 2 powi (52 - binexp x))) * 2 powi (binexp x - 52))"

section \<open>GoogleNetResize\<close>

text \<open>
  The calls the augmentor makes on its random state, an instance of numpy's
  \<open>RandomState\<close>. A unit draw is a double of \<open>[0, 1)\<close>. \<open>uniform(low, high)\<close> computes
  \<open>low + (high - low) * u\<close> from one unit draw \<open>u\<close>, in doubles; \<open>uniform()\<close> is
  \<open>uniform(0.0, 1.0)\<close>. \<open>randint(low, high)\<close> scales one unit draw to an integer of
  \<open>low, ..., high - 1\<close>; numpy raises a \<open>ValueError\<close> when that range is empty.
\<close>

definition rng_uniform :: "real \<Rightarrow> real \<Rightarrow> rng \<Rightarrow> real \<times> rng" where
  "rng_uniform low high g = (fl64 (low + fl64 (fl64 (high - low) * shd g)), stl g)"

definition rng_randint :: "int \<Rightarrow> int \<Rightarrow> rng \<Rightarrow> py_error + int \<times> rng" where
  "rng_randint low high g =
     (if high \<le> low then Inl ValueError
      else Inr (low + \<lfloor>shd g * real_of_int (high - low)\<rfloor>, stl g))"

text \<open>
  \<open>int(x)\<close> of a float truncates towards zero. \<open>np.sqrt\<close> is the correctly rounded square
  root; of a negative number it is \<open>nan\<close> (\<open>None\<close> here), which \<open>int\<close> refuses with a
  \<open>ValueError\<close>.
\<close>

definition py_int :: "real \<Rightarrow> int" where
  "py_int x = (if 0 \<le> x then \<lfloor>x\<rfloor> else \<lceil>x\<rceil>)"

definition np_sqrt :: "real \<Rightarrow> real option" where
  "np_sqrt x = (if x < 0 then None else Some (fl64 (sqrt x)))"

text \<open>\<open>img.shape[:2]\<close> and \<open>img[y1:y2, x1:x2]\<close>.\<close>

definition shape2 :: "image \<Rightarrow> nat \<times> nat" where
  "shape2 img = (length img, if img = [] then 0 else length (hd img))"

definition crop :: "image \<Rightarrow> int \<Rightarrow> int \<Rightarrow> int \<Rightarrow> int \<Rightarrow> image" where
  "crop img y1 y2 x1 x2 = map (\<lambda>row. py_slice row x1 x2) (py_slice img y1 y2)"

text \<open>
  \<open>cv2.resize(src, (width, height), interpolation=...)\<close> is a function of OpenCV, not of this
  repository. Its result has \<open>height\<close> rows of \<open>width\<close> pixels, each computed from the source
  by the interpolation, which is a parameter here (the source asks for the cubic one).
  OpenCV raises its error on a source with no pixel and on an empty target size.
\<close>

type_synonym interpolation = "image \<Rightarrow> nat \<times> nat \<Rightarrow> nat \<Rightarrow> nat \<Rightarrow> pixel"

definition cv2_resize :: "interpolation \<Rightarrow> image \<Rightarrow> nat \<times> nat \<Rightarrow> py_error + image" where
  "cv2_resize interp src dsize =
     (case dsize of (width, height) \<Rightarrow>
        if src = [] \<or> hd src = [] \<or> width = 0 \<or> height = 0 then Inl cv2_error
        else Inr (map (\<lambda>y. map (\<lambda>x. interp src (width, height) y x) [0..<width]) [0..<height]))"

text \<open>
  Modelled from the spec: \<open>imgaug.ResizeShortestEdge\<close> and \<open>imgaug.CenterCrop\<close> are classes of
  the tensorpack library, which is not under src/; lines 48-49 construct and apply them.
  The spec: "resize-shortest-edge-to-target, then center-crop to target square". The
  resize gives the shorter edge the target size and scales the longer edge by the same
  factor, rounded to the nearest integer; the crop takes the window of the target size
  whose margins on both sides are equal, the odd pixel going to the far side.
\<close>

definition ResizeShortestEdge_augment :: "interpolation \<Rightarrow> nat \<Rightarrow> image \<Rightarrow> py_error + image" where
  "ResizeShortestEdge_augment interp sz img =
     (case shape2 img of (h, w) \<Rightarrow>
        if min h w = 0 then Inl ZeroDivisionError
        else
          (let scale = real sz / real (min h w);
               newh = (if h < w then int sz else py_int (scale * real h + 1 / 2));
               neww = (if h < w then py_int (scale * real w + 1 / 2) else int sz)
           in cv2_resize interp img (nat neww, nat newh)))"

definition CenterCrop_augment :: "nat \<Rightarrow> image \<Rightarrow> image" where
  "CenterCrop_augment crop_shape img =
     (case shape2 img of (h, w) \<Rightarrow>
        (let h0 = py_int (real_of_int (int h - int crop_shape) * (1 / 2));
             w0 = py_int (real_of_int (int w - int crop_shape) * (1 / 2))
         in crop img h0 (h0 + int crop_shape) w0 (w0 + int crop_shape)))"

text \<open>
  The parameters of \<open>GoogleNetResize.__init__\<close> and their defaults (lines 27-29); the
  literals \<open>0.08\<close> and \<open>1.333\<close> stand for the doubles nearest to them, \<open>0.75\<close> is a double.
\<close>

record GoogleNetResize =
  crop_area_fraction :: real
  aspect_ratio_low :: real
  aspect_ratio_high :: real
  target_shape :: nat

definition GoogleNetResize_default :: GoogleNetResize where
  "GoogleNetResize_default =
     \<lparr>crop_area_fraction = fl64 (8 / 100), aspect_ratio_low = 75 / 100,
      aspect_ratio_high = fl64 (1333 / 1000), target_shape = 224\<rparr>"

text \<open>
  Lines 36-41, one trial on an image of \<open>h\<close> rows and \<open>w\<close> columns: the candidate
  \<open>(ww, hh)\<close> after the swap, and the random state after the three draws. The product
  with \<open>area\<close> converts that integer to a double.
\<close>

definition trial_candidate ::
  "GoogleNetResize \<Rightarrow> nat \<Rightarrow> nat \<Rightarrow> rng \<Rightarrow> py_error + (int \<times> int) \<times> rng"
where
  "trial_candidate P h w g =
     (let area = h * w in
      case rng_uniform (crop_area_fraction P) 1 g of (u, g1) \<Rightarrow>
        (let targetArea = fl64 (u * fl64 (real area)) in
         case rng_uniform (aspect_ratio_low P) (aspect_ratio_high P) g1 of (aspectR, g2) \<Rightarrow>
           (case np_sqrt (fl64 (targetArea * aspectR)) of
              None \<Rightarrow> Inl ValueError
            | Some sw \<Rightarrow>
                (let ww = py_int (fl64 (sw + 1 / 2)) in
                 if aspectR = 0 then Inl ZeroDivisionError
                 else
                   (case np_sqrt (fl64 (targetArea / aspectR)) of
                      None \<Rightarrow> Inl ValueError
                    | Some sh \<Rightarrow>
                        (let hh = py_int (fl64 (sh + 1 / 2)) in
                         case rng_uniform 0 1 g2 of (r, g3) \<Rightarrow>
                           Inr (if r < 1 / 2 then (hh, ww) else (ww, hh), g3)))))))"

text \<open>Lines 43-47: the crop of an accepted candidate at a random offset, resized to the target square.\<close>

definition crop_resize ::
  "interpolation \<Rightarrow> GoogleNetResize \<Rightarrow> image \<Rightarrow> int \<Rightarrow> int \<Rightarrow> rng \<Rightarrow> py_error + image \<times> rng"
where
  "crop_resize cubic P img ww hh g =
     (case shape2 img of (h, w) \<Rightarrow>
        (case (if int w = ww then Inr (0, g) else rng_randint 0 (int w - ww) g) of
           Inl e \<Rightarrow> Inl e
         | Inr (x1, g1) \<Rightarrow>
             (case (if int h = hh then Inr (0, g1) else rng_randint 0 (int h - hh) g1) of
                Inl e \<Rightarrow> Inl e
              | Inr (y1, g2) \<Rightarrow>
                  (let out = crop img y1 (y1 + hh) x1 (x1 + ww) in
                   case cv2_resize cubic out (target_shape P, target_shape P) of
                     Inl e \<Rightarrow> Inl e
                   | Inr out \<Rightarrow> Inr (out, g2)))))"

text \<open>Lines 48-50: what is done when no trial was accepted.\<close>

definition fallback :: "interpolation \<Rightarrow> GoogleNetResize \<Rightarrow> image \<Rightarrow> rng \<Rightarrow> py_error + image \<times> rng" where
  "fallback cubic P img g =
     (case ResizeShortestEdge_augment cubic (target_shape P) img of
        Inl e \<Rightarrow> Inl e
      | Inr out \<Rightarrow> Inr (CenterCrop_augment (target_shape P) out, g))"

text \<open>
  The loop \<open>for _ in range(10)\<close> of \<open>_augment\<close> with \<open>n\<close> trials still to make, and
  \<open>GoogleNetResize._augment(img, _)\<close> itself (lines 32-50). \<open>cubic\<close> is the interpolation
  \<open>cv2.INTER_CUBIC\<close>.
\<close>

fun GoogleNetResize_trials ::
  "nat \<Rightarrow> interpolation \<Rightarrow> GoogleNetResize \<Rightarrow> image \<Rightarrow> rng \<Rightarrow> py_error + image \<times> rng"
where
  "GoogleNetResize_trials 0 cubic P img g = fallback cubic P img g"
| "GoogleNetResize_trials (Suc n) cubic P img g =
     (case shape2 img of (h, w) \<Rightarrow>
        (case trial_candidate P h w g of
           Inl e \<Rightarrow> Inl e
         | Inr ((ww, hh), g') \<Rightarrow>
             if hh \<le> int h \<and> ww \<le> int w then crop_resize cubic P img ww hh g'
             else GoogleNetResize_trials n cubic P img g'))"

definition GoogleNetResize_augment :: "interpolation \<Rightarrow> GoogleNetResize \<Rightarrow> augmentor" where
  "GoogleNetResize_augment cubic P img g = GoogleNetResize_trials 10 cubic P img g"

section \<open>GoogleNetResize as the specification words it\<close>

text \<open>
  The specification of \<open>GoogleNetResize\<close>, to be compared with the loop above: "Attempts
  up to 10 random trials: sample a target area fraction in [crop_area_fraction, 1.0] of
  total pixel area, sample an aspect ratio in [low, high], derive candidate width/height,
  optionally swap width/height with 50% probability, accept the first candidate that fits
  within the source image bounds, crop at a uniformly random offset, and resize (cubic
  interpolation) to the fixed target square size. If no candidate fits after 10 trials,
  falls back to: resize-shortest-edge-to-target, then center-crop to target square."

  Trial \<open>k\<close> (of the trials 0 to 9) reads the unit draws \<open>3k\<close>, \<open>3k + 1\<close> and \<open>3k + 2\<close> of the
  random state. The first gives the area fraction, a uniform sample between
  \<open>crop_area_fraction\<close> and 1; the second the aspect ratio, a uniform sample between
  \<open>aspect_ratio_low\<close> and \<open>aspect_ratio_high\<close>; the third decides the swap, made when it is
  below one half.
\<close>

definition spec_fraction :: "GoogleNetResize \<Rightarrow> rng \<Rightarrow> nat \<Rightarrow> real" where
  "spec_fraction P g k = fst (rng_uniform (crop_area_fraction P) 1 (sdrop (3 * k) g))"

definition spec_aspect :: "GoogleNetResize \<Rightarrow> rng \<Rightarrow> nat \<Rightarrow> real" where
  "spec_aspect P g k =
     fst (rng_uniform (aspect_ratio_low P) (aspect_ratio_high P) (sdrop (3 * k + 1) g))"

definition spec_swap :: "rng \<Rightarrow> nat \<Rightarrow> bool" where
  "spec_swap g k = (g !! (3 * k + 2) < 1 / 2)"

text \<open>
  The candidate of trial \<open>k\<close> on an image of \<open>h\<close> rows and \<open>w\<close> columns: the rectangle whose
  area is the sampled fraction of \<open>h * w\<close> and whose width is to its height as the sampled
  aspect ratio has width \<open>sqrt (area * ratio)\<close> and height \<open>sqrt (area / ratio)\<close>; both are
  rounded to the nearest integer, all in doubles.
\<close>

definition round_nearest :: "real \<Rightarrow> int" where
  "round_nearest x = \<lfloor>fl64 (x + 1 / 2)\<rfloor>"

definition spec_candidate :: "GoogleNetResize \<Rightarrow> nat \<Rightarrow> nat \<Rightarrow> rng \<Rightarrow> nat \<Rightarrow> int \<times> int" where
  "spec_candidate P h w g k =
     (let target_area = fl64 (spec_fraction P g k * fl64 (real (h * w)));
          cw = round_nearest (fl64 (sqrt (fl64 (target_area * spec_aspect P g k))));
          ch = round_nearest (fl64 (sqrt (fl64 (target_area / spec_aspect P g k))))
      in if spec_swap g k then (ch, cw) else (cw, ch))"

text \<open>A candidate of width \<open>cw\<close> and height \<open>ch\<close> fits when it is no wider and no higher than the image.\<close>

definition spec_fits :: "nat \<Rightarrow> nat \<Rightarrow> int \<times> int \<Rightarrow> bool" where
  "spec_fits h w c = (case c of (cw, ch) \<Rightarrow> cw \<le> int w \<and> ch \<le> int h)"

text \<open>
  The random offset of a window of \<open>c\<close> pixels along an edge of \<open>n\<close> pixels: none is drawn
  when the window takes the whole edge, otherwise one unit draw is scaled to the
  \<open>n - c\<close> offsets from 0. The crop is the window of \<open>cw\<close> columns from column \<open>x1\<close> and
  \<open>ch\<close> rows from row \<open>y1\<close>.
\<close>

definition spec_offset :: "nat \<Rightarrow> int \<Rightarrow> rng \<Rightarrow> int \<times> rng" where
  "spec_offset n c g =
     (if int n = c then (0, g) else (\<lfloor>shd g * real_of_int (int n - c)\<rfloor>, stl g))"

definition spec_crop :: "image \<Rightarrow> int \<Rightarrow> int \<Rightarrow> int \<Rightarrow> int \<Rightarrow> image" where
  "spec_crop img x1 y1 cw ch =
     map (\<lambda>row. take (nat cw) (drop (nat x1) row)) (take (nat ch) (drop (nat y1) img))"

definition spec_width :: "image \<Rightarrow> nat" where
  "spec_width img = (case img of [] \<Rightarrow> 0 | row # rows \<Rightarrow> length row)"

text \<open>
  An accepted candidate: the offsets are drawn, first along the width, then along the
  height, and the crop is resized to the target square with the cubic interpolation.
\<close>

definition spec_crop_resize ::
  "interpolation \<Rightarrow> nat \<Rightarrow> image \<Rightarrow> int \<times> int \<Rightarrow> rng \<Rightarrow> py_error + image \<times> rng"
where
  "spec_crop_resize cubic t img c g =
     (case c of (cw, ch) \<Rightarrow>
        (case spec_offset (spec_width img) cw g of (x1, g1) \<Rightarrow>
           (case spec_offset (length img) ch g1 of (y1, g2) \<Rightarrow>
              (case cv2_resize cubic (spec_crop img x1 y1 cw ch) (t, t) of
                 Inl e \<Rightarrow> Inl e
               | Inr out \<Rightarrow> Inr (out, g2)))))"

text \<open>The fallback: the resize of the shortest edge to the target, then the centre crop.\<close>

definition spec_fallback :: "interpolation \<Rightarrow> nat \<Rightarrow> image \<Rightarrow> py_error + image" where
  "spec_fallback cubic t img =
     (case ResizeShortestEdge_augment cubic t img of
        Inl e \<Rightarrow> Inl e
      | Inr resized \<Rightarrow> Inr (CenterCrop_augment t resized))"

text \<open>
  The whole augmentor: the first of the ten trials whose candidate fits is cropped and
  resized, with the random state that trial left; when none fits, the fallback is taken,
  after the thirty draws of the ten trials.
\<close>

definition GoogleNetResize_spec :: "interpolation \<Rightarrow> GoogleNetResize \<Rightarrow> augmentor" where
  "GoogleNetResize_spec cubic P img g =
     (case find (\<lambda>k. spec_fits (length img) (spec_width img)
                       (spec_candidate P (length img) (spec_width img) g k)) [0..<10] of
        None \<Rightarrow>
          (case spec_fallback cubic (target_shape P) img of
             Inl e \<Rightarrow> Inl e
           | Inr out \<Rightarrow> Inr (out, sdrop 30 g))
      | Some k \<Rightarrow>
          spec_crop_resize cubic (target_shape P) img
            (spec_candidate P (length img) (spec_width img) g k) (sdrop (3 * k + 3) g))"

text \<open>
  The parameters and the random states for which the specification is stated: the
  parameters are doubles with \<open>0 \<le> crop_area_fraction \<le> 1\<close> and
  \<open>0 < aspect_ratio_low \<le> aspect_ratio_high\<close>, where the rounded sum
  \<open>aspect_ratio_low + (aspect_ratio_high - aspect_ratio_low)\<close> does not exceed
  \<open>aspect_ratio_high\<close>; every unit draw is a double of \<open>[0, 1)\<close>.
\<close>

definition valid_params :: "GoogleNetResize \<Rightarrow> bool" where
  "valid_params P =
     (fl64 (crop_area_fraction P) = crop_area_fraction P
      \<and> 0 \<le> crop_area_fraction P \<and> crop_area_fraction P \<le> 1
      \<and> fl64 (aspect_ratio_low P) = aspect_ratio_low P
      \<and> fl64 (aspect_ratio_high P) = aspect_ratio_high P
      \<and> 0 < aspect_ratio_low P \<and> aspect_ratio_low P \<le> aspect_ratio_high P
      \<and> fl64 (aspect_ratio_low P + fl64 (aspect_ratio_high P - aspect_ratio_low P))
          \<le> aspect_ratio_high P)"

definition unit_draw :: "real \<Rightarrow> bool" where
  "unit_draw u = (0 \<le> u \<and> u < 1 \<and> fl64 u = u)"

text \<open>
  To run the augmentor on examples: an interpolation that takes the nearest source pixel,
  the default parameters with a target square of two pixels, and a random state whose
  first three draws give a candidate of one pixel and make no swap, and whose fourth draw
  puts it in the middle of a row of three.
\<close>

definition nearest :: interpolation where
  "nearest src dsize y x =
     (case dsize of (width, height) \<Rightarrow>
        src ! (y * length src div height) ! (x * length (hd src) div width))"

definition small_target :: GoogleNetResize where
  "small_target = GoogleNetResize_default\<lparr>target_shape := 2\<rparr>"

definition middle_crop_draws :: rng where
  "middle_crop_draws = 1 / 4 ## 1 / 2 ## 3 / 4 ## 1 / 2 ## sconst 0"

text \<open>
  A random state whose first three draws give the smallest fraction and the smallest
  aspect ratio and make no swap.
\<close>

definition empty_crop_draws :: rng where
  "empty_crop_draws = 0 ## 0 ## 3 / 4 ## sconst 0"

text \<open>An array of shape \<open>(h, w, 3)\<close>: \<open>h\<close> rows of \<open>w\<close> pixels each.\<close>

definition rect :: "nat \<Rightarrow> nat \<Rightarrow> image \<Rightarrow> bool" where
  "rect h w img = (length img = h \<and> list_all (\<lambda>row. length row = w) img)"

section \<open>Sharding of the validation files\<close>

text \<open>
  For a shard index within \<open>0..num_splits - 1\<close> the clamp of line 126 never fires: the
  range is \<open>split_size * split_index\<close> to \<open>split_size * (split_index + 1)\<close>.
\<close>

lemma split_range_eq:
  assumes "0 < ns" "0 \<le> i" "i < ns"
  shows "split_range n ns i = ((int n div ns) * i, (int n div ns) * (i + 1))"
proof -
  have "(int n div ns) * (i + 1) \<le> (int n div ns) * ns"
    using assms by (intro mult_left_mono) (auto simp: pos_imp_zdiv_nonneg_iff)
  also have "\<dots> \<le> int n"
    using assms
    by (metis mult.commute minus_mod_eq_mult_div pos_mod_sign diff_ge_0_iff_ge
        add_diff_cancel_left' diff_add_cancel)
  finally show ?thesis by (simp add: split_range_def Let_def)
qed

lemma split_range_nat:
  assumes "i < ns"
  shows "split_range n (int ns) (int i) = (int ((n div ns) * i), int ((n div ns) * (i + 1)))"
  using split_range_eq[of "int ns" "int i" n] assms
  by (simp add: zdiv_int algebra_simps)

lemma shard_bound:
  assumes "i < ns"
  shows "(n div ns) * (i + 1) \<le> (n::nat)"
proof -
  have "i + 1 \<le> ns" using assms by simp
  then have "(n div ns) * (i + 1) \<le> (n div ns) * ns" by (rule mult_le_mono2)
  also have "\<dots> \<le> n" by simp
  finally show ?thesis .
qed

lemma shard_eq:
  assumes "i < ns"
  shows "shard files ns i = take (length files div ns) (drop ((length files div ns) * i) files)"
proof -
  let ?q = "length files div ns"
  have le: "?q * (i + 1) \<le> length files" by (rule shard_bound[OF assms])
  then have le2: "?q * i \<le> length files" by simp
  have "shard files ns i = take (?q * (i + 1) - ?q * i) (drop (?q * i) files)"
    unfolding shard_def split_range_nat[OF assms] py_slice_def slice_index_def Let_def
    using le le2 by (simp del: of_nat_mult of_nat_add add: min_absorb2)
  then show ?thesis by simp
qed

text \<open>Every shard has exactly \<open>len(files) // num_splits\<close> files, the last one too.\<close>

lemma length_shard:
  assumes "i < ns"
  shows "length (shard files ns i) = length files div ns"
  using shard_bound[OF assms, of "length files"] by (simp add: shard_eq[OF assms])

lemma chunks_concat: "concat (map (\<lambda>i. take q (drop (q * i) xs)) [0..<k]) = take (q * k) xs"
proof (induction k)
  case 0
  then show ?case by simp
next
  case (Suc k)
  have "take (q * Suc k) xs = take (q * k + q) xs" by (simp add: add.commute)
  also have "\<dots> = take (q * k) xs @ take q (drop (q * k) xs)" by (rule take_add)
  finally show ?case using Suc by simp
qed

text \<open>
  The shards, in order, are the first \<open>(len(files) // num_splits) * num_splits\<close> files: they
  are contiguous and do not overlap, and the last \<open>len(files) % num_splits\<close> files are in
  none of them.
\<close>

lemma shards_concat:
  "concat (map (shard files ns) [0..<ns]) = take ((length files div ns) * ns) files"
proof -
  have "map (shard files ns) [0..<ns] =
        map (\<lambda>i. take (length files div ns) (drop ((length files div ns) * i) files)) [0..<ns]"
    by (intro map_cong refl shard_eq) simp
  then show ?thesis by (simp only: chunks_concat)
qed

text \<open>
  Claim C1, amended: for \<open>num_splits \<ge> 1\<close> and \<open>0 \<le> split_index < num_splits\<close>, \<open>get_val_dataflow\<close>
  returns the stages on the list \<open>files[start:end]\<close> with \<open>start = split_size * split_index\<close>
  and \<open>end = split_size * (split_index + 1)\<close>, where \<open>split_size = N // num_splits\<close>; the clamp
  of \<open>end\<close> to \<open>N\<close> changes nothing. Every shard, also the last, has exactly \<open>split_size\<close>
  files. The shards in order make up the first \<open>split_size * num_splits\<close> files: they are
  contiguous and do not overlap, and the \<open>N mod num_splits\<close> files at the end are in no
  shard.
\<close>

theorem get_val_dataflow_shards:
  assumes "i < ns"
  shows "fst (get_val_dataflow E (Some dir) batch_size augmentors parallel
                (Some (int ns)) (Some (int i)))
           = Inr (val_stages E batch_size augmentors
                    (case parallel of None \<Rightarrow> min 40 (int (cpu_count E)) | Some p \<Rightarrow> p)
                    (DataFromList (shard (ILSVRC12_val E dir) ns i) False))
     \<and> split_range (length files) (int ns) (int i)
           = (int ((length files div ns) * i), int ((length files div ns) * (i + 1)))
     \<and> shard files ns i = take (length files div ns) (drop ((length files div ns) * i) files)
     \<and> length (shard files ns i) = length files div ns
     \<and> concat (map (shard files ns) [0..<ns]) = take ((length files div ns) * ns) files
     \<and> length files - length (concat (map (shard files ns) [0..<ns])) = length files mod ns"
proof -
  have ns: "int ns \<noteq> 0" "int i < int ns" using assms by simp_all
  have a: "fst (get_val_dataflow E (Some dir) batch_size augmentors parallel
                (Some (int ns)) (Some (int i)))
           = Inr (val_stages E batch_size augmentors
                    (case parallel of None \<Rightarrow> min 40 (int (cpu_count E)) | Some p \<Rightarrow> p)
                    (DataFromList (shard (ILSVRC12_val E dir) ns i) False))"
    using ns by (simp add: get_val_dataflow_def shard_def Let_def split: prod.splits)
  have "length (take ((length files div ns) * ns) files) = (length files div ns) * ns"
    by simp
  then have b: "length files - length (concat (map (shard files ns) [0..<ns])) = length files mod ns"
    unfolding shards_concat by (simp add: minus_div_mult_eq_mod)
  from a b split_range_nat[OF assms] shard_eq[OF assms] length_shard[OF assms] shards_concat
  show ?thesis by blast
qed

theorem get_val_dataflow_shards_witness:
  "(2::nat) < 3
   \<and> fst (get_val_dataflow env100 (Some ''d'') 32 [] None (Some (int 3)) (Some (int 2)))
       = Inr (val_stages env100 32 [] 8 (DataFromList (shard (ILSVRC12_val env100 ''d'') 3 2) False))
   \<and> split_range 100 3 2 = (66, 99)
   \<and> shard (ILSVRC12_val env100 ''d'') 3 2 = map val_sample [66..<99]
   \<and> length (shard (ILSVRC12_val env100 ''d'') 3 2) = 33
   \<and> concat (map (shard (ILSVRC12_val env100 ''d'') 3) [0..<3]) = map val_sample [0..<99]
   \<and> length (ILSVRC12_val env100 ''d'')
       - length (concat (map (shard (ILSVRC12_val env100 ''d'') 3) [0..<3])) = 1"
proof -
  have l: "length (ILSVRC12_val env100 ''d'') = 100" by (simp add: env100_def)
  have f: "ILSVRC12_val env100 ''d'' = map val_sample [0..<100]" by (simp add: env100_def)
  have c: "cpu_count env100 = 8" by (simp add: env100_def)
  have lt: "(2::nat) < 3" by simp
  note t = get_val_dataflow_shards[OF lt, of env100 "''d''" 32 "[]" None "ILSVRC12_val env100 ''d''"]
  have d: "take 33 (drop 66 (map val_sample [0..<100])) = map val_sample [66..<99]"
    by (simp add: drop_map take_map)
  have e: "take 99 (map val_sample [0..<100]) = map val_sample [0..<99]"
    by (simp add: take_map)
  show ?thesis using t lt d e unfolding l by (simp add: f c)
qed

text \<open>
  Claim C1, as it is stated, fails at 100 files and \<open>num_splits = 3\<close>: \<open>get_val_dataflow\<close>
  gives the three workers the files of index 0-32, 33-65 and 66-98, which is 33 files
  each and not 33, 33 and 34; the file of index 99 is in the index and in no shard, so
  the shards leave a gap and the last one does not take the remainder.
\<close>

theorem get_val_dataflow_shards_counterexample:
  "fst (get_val_dataflow env100 (Some ''d'') 32 [] None (Some 3) (Some 0)) =
     Inr (val_stages env100 32 [] 8 (DataFromList (map val_sample [0..<33]) False))
   \<and> fst (get_val_dataflow env100 (Some ''d'') 32 [] None (Some 3) (Some 1)) =
     Inr (val_stages env100 32 [] 8 (DataFromList (map val_sample [33..<66]) False))
   \<and> fst (get_val_dataflow env100 (Some ''d'') 32 [] None (Some 3) (Some 2)) =
     Inr (val_stages env100 32 [] 8 (DataFromList (map val_sample [66..<99]) False))
   \<and> map (\<lambda>i. length (shard (ILSVRC12_val env100 ''d'') 3 i)) [0, 1, 2] = [33, 33, 33]
   \<and> val_sample 99 \<in> set (ILSVRC12_val env100 ''d'')
   \<and> val_sample 99 \<notin> set (map val_sample ([0..<33] @ [33..<66] @ [66..<99]))"
  by (simp add: get_val_dataflow_def env100_def split_range_def py_slice_def slice_index_def
      shard_def Let_def drop_map take_map val_sample_def image_iff)

section \<open>The shard index check\<close>

text \<open>
  Claim C7: with \<open>num_splits\<close> given, a call whose \<open>split_index\<close> is not below \<open>num_splits\<close>
  ends in the assertion error with no effect made: no file list is constructed or read
  and nothing is logged. A call whose \<open>split_index\<close> is below \<open>num_splits\<close> does not end in
  the assertion error, and goes on to construct the file list.
\<close>

theorem get_val_dataflow_split_index_check:
  "(n \<le> i \<longrightarrow>
      get_val_dataflow E (Some dir) batch_size augmentors parallel (Some n) (Some i) =
        (Inl AssertionError, []))
   \<and> (i < n \<longrightarrow>
        fst (get_val_dataflow E (Some dir) batch_size augmentors parallel (Some n) (Some i)) \<noteq>
          Inl AssertionError
        \<and> take 1 (snd (get_val_dataflow E (Some dir) batch_size augmentors parallel (Some n) (Some i))) =
          [New_ILSVRC12Files dir ''val'' False])"
  by (simp add: get_val_dataflow_def Let_def split: prod.splits)

theorem get_val_dataflow_split_index_check_witness:
  "(3::int) \<le> 3
   \<and> get_val_dataflow env100 (Some ''d'') 32 [] None (Some 3) (Some 3) = (Inl AssertionError, [])
   \<and> (2::int) < 3
   \<and> fst (get_val_dataflow env100 (Some ''d'') 32 [] None (Some 3) (Some 2)) \<noteq> Inl AssertionError
   \<and> take 1 (snd (get_val_dataflow env100 (Some ''d'') 32 [] None (Some 3) (Some 2))) =
        [New_ILSVRC12Files ''d'' ''val'' False]"
  using get_val_dataflow_split_index_check
          [where n = 3 and i = 3 and E = env100 and dir = "''d''" and batch_size = 32
             and augmentors = "[]" and parallel = None]
        get_val_dataflow_split_index_check
          [where n = 3 and i = 2 and E = env100 and dir = "''d''" and batch_size = 32
             and augmentors = "[]" and parallel = None]
  by simp

section \<open>The stages of the validation dataflow\<close>

text \<open>
  Whatever the arguments, a call that returns has put the same two stages on its source:
  the map stage runs \<open>mapf\<close> with \<open>buffer_size = min(2000, ds.size())\<close> and \<open>strict=True\<close>,
  the batching stage has the caller's batch size and \<open>remainder=True\<close>. No argument of
  \<open>get_val_dataflow\<close> reaches the \<open>strict\<close> flag, the buffer size or the \<open>remainder\<close> flag.
\<close>

lemma get_val_dataflow_stages:
  assumes "fst (get_val_dataflow E datadir batch_size augmentors parallel num_splits split_index) = Inr ds"
  shows "\<exists>src nr_thread.
           ds = BatchData
                  (MultiThreadMapData src nr_thread (mapf (cv2_imread E) augmentors)
                     (min 2000 (ds_size E src)) True)
                  batch_size True
           \<and> ((\<exists>dir. src = ILSVRC12Files dir ''val'' False) \<or> (\<exists>files. src = DataFromList files False))"
  using assms
  by (auto simp: get_val_dataflow_def val_stages_def Let_def
          split: option.splits if_splits prod.splits)

section \<open>The map function keeps the label\<close>

text \<open>
  Claim C6: the map function of the dataflow \<open>get_val_dataflow\<close> returns gives a pair
  \<open>(im, c)\<close> for the sample \<open>(fname, cls)\<close> exactly when the file decodes and the augmentor
  chain returns \<open>im\<close> for the decoded image, and then \<open>c\<close> is the input label \<open>cls\<close>: the
  augmentors see the image only.
\<close>

theorem get_val_dataflow_mapf_label:
  assumes "fst (get_val_dataflow E datadir batch_size augmentors parallel num_splits split_index)
             = Inr (BatchData (MultiThreadMapData src nr_thread map_func buffer_size strict) B remainder)"
  shows "map_func (fname, cls) g = Inr ((im, c), g') \<longleftrightarrow>
           (\<exists>raw. cv2_imread E fname = Some raw
                  \<and> AugmentorList_augment augmentors raw g = Inr (im, g'))
           \<and> c = cls"
proof -
  have "map_func = mapf (cv2_imread E) augmentors"
    using get_val_dataflow_stages[OF assms] by auto
  then show ?thesis
    by (auto simp: mapf_def split: option.splits sum.splits)
qed

theorem get_val_dataflow_mapf_label_witness:
  "fst (get_val_dataflow env100 (Some ''d'') 3 [] None None None) =
     Inr (BatchData (MultiThreadMapData (ILSVRC12Files ''d'' ''val'' False) 8
            (mapf (cv2_imread env100) []) 100 True) 3 True)
   \<and> mapf (cv2_imread env100) [] (val_sample 7) (sconst 0) = Inr (([[(1, 2, 3)]], 7), sconst 0)
   \<and> mapf (cv2_imread env100) [] (val_sample 7) (sconst 0) \<noteq> Inr (([[(1, 2, 3)]], 8), sconst 0)"
proof -
  have built: "fst (get_val_dataflow env100 (Some ''d'') 3 [] None None None) =
     Inr (BatchData (MultiThreadMapData (ILSVRC12Files ''d'' ''val'' False) 8
            (mapf (cv2_imread env100) []) 100 True) 3 True)"
    by (simp add: get_val_dataflow_def val_stages_def env100_def)
  have rd: "cv2_imread env100 ''val.JPEG'' = Some [[(1, 2, 3)]]" by (simp add: env100_def)
  show ?thesis
    using built rd
      get_val_dataflow_mapf_label[OF built, of "''val.JPEG''" 7 "sconst 0" "[[(1, 2, 3)]]" 7 "sconst 0"]
      get_val_dataflow_mapf_label[OF built, of "''val.JPEG''" 7 "sconst 0" "[[(1, 2, 3)]]" 8 "sconst 0"]
    by (simp add: val_sample_def)
qed

section \<open>Batching keeps the remainder\<close>

lemma BatchData_iter_concat: "concat (BatchData_iter B True h xs) = h @ xs"
  by (induction xs arbitrary: h) (auto simp: Let_def)

lemma BatchData_iter_length:
  "length h < B \<Longrightarrow> length (BatchData_iter B True h xs) = (length h + length xs + B - 1) div B"
proof (induction xs arbitrary: h)
  case Nil
  then show ?case by (cases h) (auto simp: div_eq_0_iff)
next
  case (Cons x xs)
  show ?case
  proof (cases "length (h @ [x]) = B")
    case True
    have B: "0 < B" using Cons.prems by simp
    define m where "m = length xs + B - 1"
    have "length h + length (x # xs) + B - 1 = m + B"
      using True B by (simp add: m_def)
    moreover have "(m + B) div B = Suc (m div B)"
      using B by simp
    ultimately have "(length h + length (x # xs) + B - 1) div B = Suc ((length xs + B - 1) div B)"
      by (simp only: m_def)
    moreover have "length (BatchData_iter B True h (x # xs)) = Suc (length (BatchData_iter B True [] xs))"
      using True by (simp add: Let_def)
    ultimately show ?thesis using Cons.IH[of "[]"] B by (simp del: BatchData_iter.simps)
  next
    case False
    with Cons.prems have "length (h @ [x]) < B" by simp
    from Cons.IH[OF this] False show ?thesis by (simp add: Let_def)
  qed
qed

lemma BatchData_iter_butlast:
  "length h < B \<Longrightarrow> list_all (\<lambda>b. length b = B) (butlast (BatchData_iter B True h xs))"
proof (induction xs arbitrary: h)
  case Nil
  then show ?case by simp
next
  case (Cons x xs)
  show ?case
  proof (cases "length (h @ [x]) = B")
    case True
    have "0 < B" using Cons.prems by simp
    with True Cons.IH[of "[]"] show ?thesis
      by (simp add: Let_def)
  next
    case False
    with Cons.prems have "length (h @ [x]) < B" by simp
    from Cons.IH[OF this] False show ?thesis by (simp add: Let_def)
  qed
qed

lemma BatchData_iter_last:
  "length h < B \<Longrightarrow> 0 < length h + length xs \<Longrightarrow>
   BatchData_iter B True h xs \<noteq> []
   \<and> length (last (BatchData_iter B True h xs)) =
       (if (length h + length xs) mod B = 0 then B else (length h + length xs) mod B)"
proof (induction xs arbitrary: h)
  case Nil
  then show ?case by (cases h) auto
next
  case (Cons x xs)
  show ?case
  proof (cases "length (h @ [x]) = B")
    case True
    have B: "0 < B" using Cons.prems by simp
    have m: "(length h + length (x # xs)) mod B = (length xs) mod B"
      using True
      by (metis add.commute add_Suc_right length_Cons length_append_singleton mod_add_self1 add_Suc)
    have step: "BatchData_iter B True h (x # xs) = (h @ [x]) # BatchData_iter B True [] xs"
      using True by (simp add: Let_def)
    show ?thesis
    proof (cases xs)
      case Nil
      then show ?thesis using True step m B by simp
    next
      case (Cons y ys)
      then have "0 < length [] + length xs" by simp
      from Cons.IH[OF _ this] B
      have "BatchData_iter B True [] xs \<noteq> []"
        and "length (last (BatchData_iter B True [] xs)) =
             (if length xs mod B = 0 then B else length xs mod B)"
        by simp_all
      then show ?thesis unfolding step m by simp
    qed
  next
    case False
    with Cons.prems have "length (h @ [x]) < B" by simp
    from Cons.IH[OF this] False Cons.prems show ?thesis by (simp add: Let_def)
  qed
qed

lemma ceil_div_nat:
  assumes "0 < B"
  shows "\<lceil>real K / real B\<rceil> = int ((K + B - 1) div B)"
proof (rule ceiling_unique)
  let ?n = "(K + B - 1) div B"
  have le: "?n * B \<le> K + B - 1" by simp
  have lt: "K + B - 1 < ?n * B + B"
    using assms by (metis div_mult_mod_eq mod_less_divisor nat_add_left_cancel_less)
  have "K \<le> ?n * B" using lt assms by linarith
  then have "real K \<le> real (?n * B)" by (rule iffD2[OF of_nat_le_iff])
  then show "real K / real B \<le> of_int (int ?n)"
    using assms by (simp add: divide_le_eq)
  have "?n * B < K + B" using le assms by linarith
  then have "real (?n * B) < real (K + B)" by (rule iffD2[OF of_nat_less_iff])
  then have "(real ?n - 1) * real B < real K" by (simp add: algebra_simps)
  then show "of_int (int ?n) - 1 < real K / real B"
    using assms by (simp add: less_divide_eq)
qed

lemma last_map_length: "xs \<noteq> [] \<Longrightarrow> length (snd (last (map aggregate_batch xs))) = length (last xs)"
  by (simp add: last_map aggregate_batch_def)

lemma concat_labels: "concat (map snd (map aggregate_batch bs)) = map snd (concat bs)"
  by (induction bs) (auto simp: aggregate_batch_def)

text \<open>
  Claim C4: the batching stage of the dataflow \<open>get_val_dataflow\<close> returns is
  \<open>BatchData(ds, batch_size, remainder=True)\<close> with the caller's batch size \<open>B\<close>. Run on
  a stream of \<open>K \<ge> 1\<close> samples with \<open>B \<ge> 1\<close> it gives \<open>ceil(K / B)\<close> batches; every batch
  but the last holds \<open>B\<close> images and \<open>B\<close> labels; the last one holds \<open>K mod B\<close> samples when
  that is not zero (and \<open>B\<close> otherwise), so the remainder is kept, neither dropped nor
  padded; and the labels of all batches are, as a multiset, the labels of the input.
\<close>

theorem get_val_dataflow_batches:
  assumes built: "fst (get_val_dataflow E datadir batch_size augmentors parallel num_splits split_index)
                    = Inr ds"
    and B: "1 \<le> batch_size" and K: "1 \<le> length stream"
  shows "\<exists>inner. ds = BatchData inner batch_size True
     \<and> int (length (BatchData_get_data batch_size True stream)) =
          \<lceil>real (length stream) / real_of_int batch_size\<rceil>
     \<and> list_all (\<lambda>b. int (length (fst b)) = batch_size \<and> int (length (snd b)) = batch_size)
          (butlast (BatchData_get_data batch_size True stream))
     \<and> length (snd (last (BatchData_get_data batch_size True stream))) =
          (if length stream mod nat batch_size = 0 then nat batch_size
           else length stream mod nat batch_size)
     \<and> mset (concat (map snd (BatchData_get_data batch_size True stream))) = mset (map snd stream)"
proof -
  obtain inner where ds: "ds = BatchData inner batch_size True"
    using get_val_dataflow_stages[OF built] by auto
  define n where "n = nat batch_size"
  have n: "0 < n" and Bn: "batch_size = int n" using B by (simp_all add: n_def)
  let ?bs = "BatchData_iter n True [] stream"
  let ?out = "BatchData_get_data (int n) True stream"
  have bs: "?out = map aggregate_batch ?bs"
    by (simp add: BatchData_get_data_def)
  have len: "length ?bs = (length stream + n - 1) div n"
    using BatchData_iter_length[of "[]" n stream] n by simp
  have c1: "int (length ?out) = \<lceil>real (length stream) / real_of_int (int n)\<rceil>"
    using ceil_div_nat[OF n, of "length stream"] by (simp add: bs len)
  have "list_all (\<lambda>b. length b = n) (butlast ?bs)"
    using BatchData_iter_butlast[of "[]" n stream] n by simp
  then have c2: "list_all (\<lambda>b. int (length (fst b)) = int n \<and> int (length (snd b)) = int n)
          (butlast ?out)"
    by (simp add: bs map_butlast[symmetric] list_all_iff aggregate_batch_def)
  have l: "?bs \<noteq> []" "length (last ?bs) = (if length stream mod n = 0 then n else length stream mod n)"
  proof -
    have "stream \<noteq> []" using K by auto
    then have "0 < length [] + length stream" by simp
    from BatchData_iter_last[OF _ this, of n] n
    show "?bs \<noteq> []"
      and "length (last ?bs) = (if length stream mod n = 0 then n else length stream mod n)"
      by simp_all
  qed
  have c3: "length (snd (last ?out)) =
          (if length stream mod nat (int n) = 0 then nat (int n) else length stream mod nat (int n))"
    using l by (simp add: bs last_map aggregate_batch_def)
  have "concat (map snd (map aggregate_batch ?bs)) = map snd (concat ?bs)"
    by (rule concat_labels)
  then have c4: "mset (concat (map snd ?out)) = mset (map snd stream)"
    by (simp add: bs BatchData_iter_concat)
  from ds c1 c2 c3 c4 show ?thesis unfolding Bn by blast
qed

theorem get_val_dataflow_batches_witness:
  "fst (get_val_dataflow env100 (Some ''d'') 2 [] None None None) =
     Inr (BatchData (MultiThreadMapData (ILSVRC12Files ''d'' ''val'' False) 8
            (mapf (cv2_imread env100) []) 100 True) 2 True)
   \<and> (1::int) \<le> 2 \<and> 1 \<le> length seven_samples
   \<and> int (length (BatchData_get_data 2 True seven_samples)) = \<lceil>real (length seven_samples) / real_of_int 2\<rceil>
   \<and> map snd (BatchData_get_data 2 True seven_samples) = [[0, 1], [2, 3], [4, 5], [6]]
   \<and> mset (concat (map snd (BatchData_get_data 2 True seven_samples))) = mset (map snd seven_samples)"
proof -
  have built: "fst (get_val_dataflow env100 (Some ''d'') 2 [] None None None) =
     Inr (BatchData (MultiThreadMapData (ILSVRC12Files ''d'' ''val'' False) 8
            (mapf (cv2_imread env100) []) 100 True) 2 True)"
    by (simp add: get_val_dataflow_def val_stages_def env100_def)
  have K: "1 \<le> length seven_samples" by (simp add: seven_samples_def)
  have ev: "map snd (BatchData_get_data 2 True seven_samples) = [[0, 1], [2, 3], [4, 5], [6]]"
    by (simp add: BatchData_get_data_def seven_samples_def aggregate_batch_def Let_def)
  from get_val_dataflow_batches[OF built _ K] built K ev show ?thesis by simp
qed

section \<open>The map stage keeps the input order\<close>

lemma map_result_label:
  "map_result (mapf imread augmentors) dp g = Inr out \<Longrightarrow> snd out = snd dp"
  by (cases dp) (auto simp: map_result_def mapf_def split: option.splits sum.splits)

text \<open>
  Claim C10: every call of \<open>get_val_dataflow\<close> that returns has constructed the map stage
  with \<open>strict=True\<close> and \<open>buffer_size = min(2000, ds.size())\<close>, whatever its arguments: none
  of them reaches the flag. So, whatever the order in which the workers finish, the
  datapoints reach the batching stage in input order: there are as many as the source
  yields, the one at position \<open>k\<close> is the result of the map function on the sample at
  position \<open>k\<close> of the source, and it carries the label of that sample.
\<close>

theorem get_val_dataflow_strict_order:
  assumes built: "fst (get_val_dataflow E datadir batch_size augmentors parallel num_splits split_index) = Inr ds"
  shows "\<exists>src nr_thread.
           ds = BatchData
                  (MultiThreadMapData src nr_thread (mapf (cv2_imread E) augmentors)
                     (min 2000 (length (source_data E src))) True)
                  batch_size True
           \<and> ((\<exists>dir. src = ILSVRC12Files dir ''val'' False) \<or> (\<exists>files. src = DataFromList files False))
           \<and> batcher_input E completion states ds =
               map (\<lambda>k. map_result (mapf (cv2_imread E) augmentors) (source_data E src ! k) (states k))
                 [0..<length (source_data E src)]
           \<and> length (batcher_input E completion states ds) = length (source_data E src)
           \<and> (\<forall>k<length (source_data E src). \<forall>out.
                 batcher_input E completion states ds ! k = Inr out \<longrightarrow>
                 snd out = snd (source_data E src ! k))"
proof -
  from get_val_dataflow_stages[OF built] obtain src nr_thread where
    ds: "ds = BatchData
                  (MultiThreadMapData src nr_thread (mapf (cv2_imread E) augmentors)
                     (min 2000 (ds_size E src)) True)
                  batch_size True"
    and src: "(\<exists>dir. src = ILSVRC12Files dir ''val'' False) \<or> (\<exists>files. src = DataFromList files False)"
    by blast
  have sz: "ds_size E src = length (source_data E src)" using src by auto
  have out: "batcher_input E completion states ds =
               map (\<lambda>k. map_result (mapf (cv2_imread E) augmentors) (source_data E src ! k) (states k))
                 [0..<length (source_data E src)]"
    by (simp add: ds MultiThreadMapData_get_data_def)
  have len: "length (batcher_input E completion states ds) = length (source_data E src)"
    unfolding out by simp
  have lab: "\<forall>k<length (source_data E src). \<forall>out.
                 batcher_input E completion states ds ! k = Inr out \<longrightarrow>
                 snd out = snd (source_data E src ! k)"
    unfolding out by (auto dest: map_result_label)
  from ds src out len lab show ?thesis unfolding sz by blast
qed

theorem get_val_dataflow_strict_order_witness:
  "fst (get_val_dataflow env100 (Some ''d'') 32 [] None (Some 50) (Some 1)) =
     Inr (BatchData
            (MultiThreadMapData (DataFromList [val_sample 2, val_sample 3] False) 8
               (mapf (cv2_imread env100) []) 2 True)
            32 True)
   \<and> batcher_input env100 [1, 0] (\<lambda>k. sconst 0)
        (BatchData
            (MultiThreadMapData (DataFromList [val_sample 2, val_sample 3] False) 8
               (mapf (cv2_imread env100) []) 2 True)
            32 True)
       = [Inr ([[(1, 2, 3)]], 2), Inr ([[(1, 2, 3)]], 3)]
   \<and> MultiThreadMapData_get_data (mapf (cv2_imread env100) []) False [1, 0] (\<lambda>k. sconst 0)
        [val_sample 2, val_sample 3]
       = [Inr ([[(1, 2, 3)]], 3), Inr ([[(1, 2, 3)]], 2)]"
proof -
  have up: "[2..<4] = [2, 3::nat]" by (simp add: upt_rec)
  have built: "fst (get_val_dataflow env100 (Some ''d'') 32 [] None (Some 50) (Some 1)) =
     Inr (BatchData
            (MultiThreadMapData (DataFromList [val_sample 2, val_sample 3] False) 8
               (mapf (cv2_imread env100) []) 2 True)
            32 True)"
    by (simp add: get_val_dataflow_def val_stages_def env100_def split_range_def py_slice_def
          slice_index_def Let_def drop_map take_map up val_sample_def)
  have r: "\<And>k. map_result (mapf (cv2_imread env100) []) (val_sample k) (sconst 0) = Inr ([[(1, 2, 3)]], int k)"
    by (simp add: map_result_def mapf_def env100_def val_sample_def)
  have ns: "MultiThreadMapData_get_data (mapf (cv2_imread env100) []) False [1, 0] (\<lambda>k. sconst 0)
        [val_sample 2, val_sample 3]
       = [Inr ([[(1, 2, 3)]], 3), Inr ([[(1, 2, 3)]], 2)]"
    by (simp add: MultiThreadMapData_get_data_def r)
  have u2: "[0..<2] = [0, Suc 0]" by (simp add: upt_rec)
  from get_val_dataflow_strict_order[OF built, of "[1, 0]" "\<lambda>k. sconst 0"]
  have "batcher_input env100 [1, 0] (\<lambda>k. sconst 0)
        (BatchData
            (MultiThreadMapData (DataFromList [val_sample 2, val_sample 3] False) 8
               (mapf (cv2_imread env100) []) 2 True)
            32 True)
       = [Inr ([[(1, 2, 3)]], 2), Inr ([[(1, 2, 3)]], 3)]"
    by (simp add: r u2)
  with built ns show ?thesis by simp
qed

section \<open>The error ratios\<close>

lemma eval_loop_sums:
  "eval_loop results (acc1, acc5) =
     (\<lparr>cnt = cnt acc1 + (\<Sum>r\<leftarrow>results. vec_sum (fst r)),
       tot = tot acc1 + (\<Sum>r\<leftarrow>results. length (fst r))\<rparr>,
      \<lparr>cnt = cnt acc5 + (\<Sum>r\<leftarrow>results. vec_sum (snd r)),
       tot = tot acc5 + (\<Sum>r\<leftarrow>results. length (fst r))\<rparr>)"
proof (induction results arbitrary: acc1 acc5)
  case Nil
  then show ?case by simp
next
  case (Cons r rs)
  obtain top1 top5 where r: "r = (top1, top5)" by (cases r)
  show ?case
    unfolding r by (simp add: Cons.IH feed_def Let_def add.assoc)
qed

lemma vec_sum_all_wrong: "list_all id v \<Longrightarrow> vec_sum v = length v"
  by (induction v) (auto simp: vec_sum_def)

lemma vec_sum_all_right: "list_all Not v \<Longrightarrow> vec_sum v = 0"
  by (induction v) (auto simp: vec_sum_def)

lemma total_pos:
  "results \<noteq> [] \<Longrightarrow> list_all (\<lambda>r. 1 \<le> length (fst r)) results \<Longrightarrow> 0 < (\<Sum>r\<leftarrow>results. length (fst r))"
  by (cases results) auto

text \<open>
  Claim C5: for a run of at least one batch, every batch of at least one sample, each of
  the two values \<open>eval_on_ILSVRC12\<close> reports is the sum over the batches of the wrong
  indicators (of \<open>wrong-top1\<close>, of \<open>wrong-top5\<close>) divided by the sum of the batch sizes. When
  every sample is right the ratio is 0, when every sample is wrong it is 1.
\<close>

theorem eval_on_ILSVRC12_ratio:
  assumes "results \<noteq> []" and "list_all (\<lambda>r. 1 \<le> length (fst r)) results"
  shows "eval_on_ILSVRC12 results =
           (Some (real (\<Sum>r\<leftarrow>results. vec_sum (fst r)) / real (\<Sum>r\<leftarrow>results. length (fst r))),
            Some (real (\<Sum>r\<leftarrow>results. vec_sum (snd r)) / real (\<Sum>r\<leftarrow>results. length (fst r))))
         \<and> (list_all (\<lambda>r. list_all Not (fst r)) results \<longrightarrow> fst (eval_on_ILSVRC12 results) = Some 0)
         \<and> (list_all (\<lambda>r. list_all id (fst r)) results \<longrightarrow> fst (eval_on_ILSVRC12 results) = Some 1)
         \<and> (list_all (\<lambda>r. list_all Not (snd r)) results \<longrightarrow> snd (eval_on_ILSVRC12 results) = Some 0)
         \<and> (list_all (\<lambda>r. list_all id (snd r) \<and> length (snd r) = length (fst r)) results \<longrightarrow>
              snd (eval_on_ILSVRC12 results) = Some 1)"
proof -
  have pos: "0 < (\<Sum>r\<leftarrow>results. length (fst r))" using assms by (rule total_pos)
  have main: "eval_on_ILSVRC12 results =
           (Some (real (\<Sum>r\<leftarrow>results. vec_sum (fst r)) / real (\<Sum>r\<leftarrow>results. length (fst r))),
            Some (real (\<Sum>r\<leftarrow>results. vec_sum (snd r)) / real (\<Sum>r\<leftarrow>results. length (fst r))))"
  proof -
    define c1 where "c1 = (\<Sum>r\<leftarrow>results. vec_sum (fst r))"
    define c5 where "c5 = (\<Sum>r\<leftarrow>results. vec_sum (snd r))"
    define t where "t = (\<Sum>r\<leftarrow>results. length (fst r))"
    have "eval_loop results (RatioCounter_new, RatioCounter_new) =
            (\<lparr>cnt = c1, tot = t\<rparr>, \<lparr>cnt = c5, tot = t\<rparr>)"
      by (simp add: eval_loop_sums RatioCounter_new_def c1_def c5_def t_def)
    moreover have "t \<noteq> 0" using pos by (simp only: t_def)
    ultimately have "eval_on_ILSVRC12 results = (Some (real c1 / real t), Some (real c5 / real t))"
      by (simp add: eval_on_ILSVRC12_def ratio_def)
    then show ?thesis by (simp only: c1_def c5_def t_def)
  qed
  have z1: "list_all (\<lambda>r. list_all Not (fst r)) results \<Longrightarrow> (\<Sum>r\<leftarrow>results. vec_sum (fst r)) = 0"
    by (induction results) (auto simp: vec_sum_all_right)
  have z5: "list_all (\<lambda>r. list_all Not (snd r)) results \<Longrightarrow> (\<Sum>r\<leftarrow>results. vec_sum (snd r)) = 0"
    by (induction results) (auto simp: vec_sum_all_right)
  have o1: "list_all (\<lambda>r. list_all id (fst r)) results \<Longrightarrow>
            (\<Sum>r\<leftarrow>results. vec_sum (fst r)) = (\<Sum>r\<leftarrow>results. length (fst r))"
    by (induction results) (auto simp: vec_sum_all_wrong)
  have o5: "list_all (\<lambda>r. list_all id (snd r) \<and> length (snd r) = length (fst r)) results \<Longrightarrow>
            (\<Sum>r\<leftarrow>results. vec_sum (snd r)) = (\<Sum>r\<leftarrow>results. length (fst r))"
    by (induction results) (auto simp: vec_sum_all_wrong)
  define t where "t = (\<Sum>r\<leftarrow>results. length (fst r))"
  have t: "real t \<noteq> 0" using pos unfolding t_def[symmetric] by simp
  have a: "list_all (\<lambda>r. list_all Not (fst r)) results \<longrightarrow> fst (eval_on_ILSVRC12 results) = Some 0"
    unfolding main by (simp add: z1)
  have b: "list_all (\<lambda>r. list_all id (fst r)) results \<longrightarrow> fst (eval_on_ILSVRC12 results) = Some 1"
    unfolding main using t by (simp add: o1 t_def[symmetric])
  have c: "list_all (\<lambda>r. list_all Not (snd r)) results \<longrightarrow> snd (eval_on_ILSVRC12 results) = Some 0"
    unfolding main by (simp add: z5)
  have d: "list_all (\<lambda>r. list_all id (snd r) \<and> length (snd r) = length (fst r)) results \<longrightarrow>
              snd (eval_on_ILSVRC12 results) = Some 1"
    unfolding main using t by (simp add: o5 t_def[symmetric])
  from main a b c d show ?thesis by blast
qed

theorem eval_on_ILSVRC12_ratio_witness:
  "[([True, False, False], [False, False, False]), ([True, True], [True, False])] \<noteq> []
   \<and> list_all (\<lambda>r. 1 \<le> length (fst r))
        [([True, False, False], [False, False, False]), ([True, True], [True, False])]
   \<and> eval_on_ILSVRC12 [([True, False, False], [False, False, False]), ([True, True], [True, False])]
       = (Some (3 / 5), Some (1 / 5))
   \<and> eval_on_ILSVRC12 [([False, False], [False, False])] = (Some 0, Some 0)
   \<and> eval_on_ILSVRC12 [([True, True], [True, True])] = (Some 1, Some 1)"
  using eval_on_ILSVRC12_ratio[of "[([True, False, False], [False, False, False]), ([True, True], [True, False])]"]
        eval_on_ILSVRC12_ratio[of "[([False, False], [False, False])]"]
        eval_on_ILSVRC12_ratio[of "[([True, True], [True, True])]"]
  by (simp add: vec_sum_def)

section \<open>Flipping twice\<close>

lemma hflip_hflip: "hflip (hflip im) = im"
  by (simp add: hflip_def rev_map[symmetric] map_idI)

text \<open>
  Claim C8: flipping an image left-right twice gives back the very same pixel array, and
  so does the flip augmentor applied twice when both of its draws fall below one half. On
  a unit draw \<open>u\<close> one application reverses the rows when \<open>u < 1/2\<close> and returns the image as
  it is otherwise, which is half of the unit interval each. The map function with the
  flip as its augmentor returns the label it was given.
\<close>

theorem Flip_horiz_twice:
  "hflip (hflip im) = im
   \<and> (shd g < 1 / 2 \<and> shd (stl g) < 1 / 2 \<longrightarrow>
        AugmentorList_augment [Flip_horiz, Flip_horiz] im g = Inr (im, stl (stl g)))
   \<and> Flip_horiz im (u ## g') = Inr (if u < 1 / 2 then map rev im else im, g')
   \<and> (mapf imread [Flip_horiz] (fname, cls) g = Inr ((im', c), g'') \<longrightarrow> c = cls)"
  by (auto simp: hflip_hflip Flip_horiz_def hflip_def mapf_def split: option.splits)

theorem Flip_horiz_twice_witness:
  "hflip (hflip [[(1, 2, 3), (4, 5, 6)]]) = [[(1, 2, 3), (4, 5, 6)]]
   \<and> hflip [[(1, 2, 3), (4, 5, 6)]] = [[(4, 5, 6), (1, 2, 3)]]
   \<and> shd (sconst (0::real)) < 1 / 2 \<and> shd (stl (sconst (0::real))) < 1 / 2
   \<and> AugmentorList_augment [Flip_horiz, Flip_horiz] [[(1, 2, 3), (4, 5, 6)]] (sconst 0)
       = Inr ([[(1, 2, 3), (4, 5, 6)]], sconst 0)
   \<and> Flip_horiz [[(1, 2, 3), (4, 5, 6)]] (0 ## sconst 0) = Inr ([[(4, 5, 6), (1, 2, 3)]], sconst 0)
   \<and> Flip_horiz [[(1, 2, 3), (4, 5, 6)]] (3 / 4 ## sconst 0) = Inr ([[(1, 2, 3), (4, 5, 6)]], sconst 0)
   \<and> mapf (cv2_imread env100) [Flip_horiz] (val_sample 5) (sconst 0) = Inr (([[(1, 2, 3)]], 5), sconst 0)"
proof -
  have m: "mapf (cv2_imread env100) [Flip_horiz] (''val.JPEG'', 5) (sconst 0)
             = Inr (([[(1, 2, 3)]], 5), sconst 0)"
    by (simp add: mapf_def env100_def Flip_horiz_def hflip_def)
  show ?thesis
    using m
      Flip_horiz_twice[of "[[(1, 2, 3), (4, 5, 6)]]" "sconst 0" 0 "sconst 0"
        "cv2_imread env100" "''val.JPEG''" 5 "[[(1, 2, 3)]]" 5 "sconst 0"]
      Flip_horiz_twice[of "[[(1, 2, 3), (4, 5, 6)]]" "sconst 0" "3 / 4" "sconst 0"
        "cv2_imread env100" "''val.JPEG''" 5 "[[(1, 2, 3)]]" 5 "sconst 0"]
    by (simp add: hflip_def val_sample_def)
qed

section \<open>The benchmark script\<close>




section \<open>Rounding to doubles\<close>

text \<open>
  The rounding is monotone, keeps the sign, leaves a number of at most 53 significant
  bits as it is, and moves a number of \<open>[0, 1]\<close> up by at most \<open>2^-54\<close>.
\<close>

lemma rne_cases: "rne x = \<lfloor>x\<rfloor> \<or> rne x = \<lfloor>x\<rfloor> + 1"
  by (simp add: rne_def Let_def)

lemma rne_of_int: "rne (of_int n) = n"
  by (simp add: rne_def Let_def)

lemma rne_mono:
  assumes "x \<le> y"
  shows "rne x \<le> rne y"
proof (cases "\<lfloor>x\<rfloor> = \<lfloor>y\<rfloor>")
  case True
  then show ?thesis using assms by (auto simp: rne_def Let_def)
next
  case False
  then have "\<lfloor>x\<rfloor> + 1 \<le> \<lfloor>y\<rfloor>" using floor_mono[OF assms] by linarith
  moreover have "rne x \<le> \<lfloor>x\<rfloor> + 1" using rne_cases[of x] by linarith
  moreover have "\<lfloor>y\<rfloor> \<le> rne y" using rne_cases[of y] by linarith
  ultimately show ?thesis by linarith
qed

lemma rne_ge: "of_int n \<le> x \<Longrightarrow> n \<le> rne x"
  using rne_mono[of "of_int n" x] by (simp add: rne_of_int)

lemma rne_le: "x \<le> of_int n \<Longrightarrow> rne x \<le> n"
  using rne_mono[of x "of_int n"] by (simp add: rne_of_int)

lemma rne_err_upper: "of_int (rne x) \<le> x + 1 / 2"
proof -
  have f: "real_of_int \<lfloor>x\<rfloor> \<le> x" by simp
  show ?thesis
  proof (cases "x - of_int \<lfloor>x\<rfloor> < 1 / 2")
    case True
    then have "rne x = \<lfloor>x\<rfloor>" by (simp add: rne_def Let_def)
    then show ?thesis using of_int_floor_le[of x] by linarith
  next
    case False
    then have "real_of_int (\<lfloor>x\<rfloor> + 1) \<le> x + 1 / 2" by simp
    moreover have "rne x \<le> \<lfloor>x\<rfloor> + 1" using rne_cases[of x] by linarith
    ultimately show ?thesis by (smt (verit) of_int_le_iff)
  qed
qed

lemma two_powi_add: "(2::real) powi m * 2 powi n = 2 powi (m + n)"
  by (simp add: power_int_add)

lemma two_pow_52: "(2::real) ^ 52 = 2 powi 52" and two_pow_53: "(2::real) ^ 53 = 2 powi 53"
  by simp_all

lemma binexp_bounds:
  assumes "0 < x"
  shows "2 powi (binexp x) \<le> x" and "x < 2 powi (binexp x + 1)"
proof -
  have a: "\<bar>x\<bar> = x" using assms by simp
  have "of_int (binexp x) \<le> log 2 x" by (simp add: binexp_def a)
  then have "2 powr (of_int (binexp x)) \<le> x"
    using assms by (simp add: le_log_iff)
  then show "2 powi (binexp x) \<le> x" by (simp add: powr_real_of_int')
  have "log 2 x < of_int (binexp x + 1)" unfolding binexp_def a by linarith
  then have "x < 2 powr (of_int (binexp x + 1))"
    using assms by (simp only: log_less_iff[of 2 x] one_less_numeral_iff semiring_norm)
  then show "x < 2 powi (binexp x + 1)" by (simp add: powr_real_of_int' del: of_int_add)
qed

lemma binexp_unique:
  assumes "2 powi k \<le> x" "x < 2 powi (k + 1)"
  shows "binexp x = k"
proof -
  have pos: "0 < x" using assms(1) zero_less_power_int[of "2::real" k] by linarith
  then have a: "\<bar>x\<bar> = x" by simp
  have "2 powr (of_int k) \<le> x" using assms(1) by (simp add: powr_real_of_int')
  then have l: "of_int k \<le> log 2 x" using pos by (simp add: le_log_iff)
  have "x < 2 powr (of_int (k + 1))" using assms(2) by (simp add: powr_real_of_int' del: of_int_add)
  then have u: "log 2 x < of_int (k + 1)"
    using pos by (simp only: log_less_iff[of 2 x] one_less_numeral_iff semiring_norm)
  show ?thesis unfolding binexp_def a using l u by (intro floor_unique) simp_all
qed

lemma binexp_mono:
  assumes "0 < x" "x \<le> y"
  shows "binexp x \<le> binexp y"
proof -
  have "log 2 x \<le> log 2 y" using assms by simp
  then show ?thesis using assms by (simp add: binexp_def floor_mono)
qed

lemma scaled_bounds:
  assumes "0 < x"
  shows "2 ^ 52 \<le> x * 2 powi (52 - binexp x)" and "x * 2 powi (52 - binexp x) < 2 ^ 53"
proof -
  have p: "0 < (2::real) powi (52 - binexp x)" by simp
  have "2 powi (binexp x) * 2 powi (52 - binexp x) \<le> x * 2 powi (52 - binexp x)"
    using binexp_bounds(1)[OF assms] p by (intro mult_right_mono) simp_all
  moreover have "(2::real) powi (binexp x) * 2 powi (52 - binexp x) = 2 powi 52"
    by (simp flip: power_int_add)
  ultimately show "2 ^ 52 \<le> x * 2 powi (52 - binexp x)" by simp
  have "x * 2 powi (52 - binexp x) < 2 powi (binexp x + 1) * 2 powi (52 - binexp x)"
    using binexp_bounds(2)[OF assms] p by (intro mult_strict_right_mono) simp_all
  moreover have "(2::real) powi (binexp x + 1) * 2 powi (52 - binexp x) = 2 powi 53"
    by (simp flip: power_int_add)
  ultimately show "x * 2 powi (52 - binexp x) < 2 ^ 53" by simp
qed

lemma rne_scaled:
  assumes "0 < x"
  shows "2 ^ 52 \<le> rne (x * 2 powi (52 - binexp x))" and "rne (x * 2 powi (52 - binexp x)) \<le> 2 ^ 53"
proof -
  have "of_int (2 ^ 52) \<le> x * 2 powi (52 - binexp x)" using scaled_bounds(1)[OF assms] by simp
  then show "2 ^ 52 \<le> rne (x * 2 powi (52 - binexp x))" by (rule rne_ge)
  have "x * 2 powi (52 - binexp x) \<le> of_int (2 ^ 53)" using scaled_bounds(2)[OF assms] by simp
  then show "rne (x * 2 powi (52 - binexp x)) \<le> 2 ^ 53" by (rule rne_le)
qed

lemma fl64_0: "fl64 0 = 0"
  by (simp add: fl64_def)

lemma fl64_pos_eq:
  "0 < x \<Longrightarrow> fl64 x = real_of_int (rne (x * 2 powi (52 - binexp x))) * 2 powi (binexp x - 52)"
  by (simp add: fl64_def)

lemma fl64_bounds:
  assumes "0 < x"
  shows "2 powi (binexp x) \<le> fl64 x" and "fl64 x \<le> 2 powi (binexp x + 1)"
proof -
  have p: "0 < (2::real) powi (binexp x - 52)" by simp
  have "real_of_int (2 ^ 52) \<le> real_of_int (rne (x * 2 powi (52 - binexp x)))"
    using rne_scaled(1)[OF assms] by (simp only: of_int_le_iff)
  then have "2 ^ 52 * 2 powi (binexp x - 52)
             \<le> real_of_int (rne (x * 2 powi (52 - binexp x))) * 2 powi (binexp x - 52)"
    using p by (intro mult_right_mono) simp_all
  moreover have "(2::real) ^ 52 * 2 powi (binexp x - 52) = 2 powi (binexp x)"
  proof -
    have "52 + (binexp x - 52) = binexp x" by simp
    then show ?thesis by (simp only: two_pow_52 two_powi_add)
  qed
  ultimately show "2 powi (binexp x) \<le> fl64 x"
    unfolding fl64_pos_eq[OF assms] by linarith
  have "real_of_int (rne (x * 2 powi (52 - binexp x))) \<le> real_of_int (2 ^ 53)"
    using rne_scaled(2)[OF assms] by (simp only: of_int_le_iff)
  then have "real_of_int (rne (x * 2 powi (52 - binexp x))) * 2 powi (binexp x - 52)
             \<le> 2 ^ 53 * 2 powi (binexp x - 52)"
    using p by (intro mult_right_mono) simp_all
  moreover have "(2::real) ^ 53 * 2 powi (binexp x - 52) = 2 powi (binexp x + 1)"
  proof -
    have "53 + (binexp x - 52) = binexp x + 1" by simp
    then show ?thesis by (simp only: two_pow_53 two_powi_add)
  qed
  ultimately show "fl64 x \<le> 2 powi (binexp x + 1)"
    unfolding fl64_pos_eq[OF assms] by linarith
qed

lemma fl64_pos: "0 < x \<Longrightarrow> 0 < fl64 x"
  using fl64_bounds(1)[of x] zero_less_power_int[of "2::real" "binexp x"] by linarith

lemma fl64_nonneg: "0 \<le> x \<Longrightarrow> 0 \<le> fl64 x"
  using fl64_pos[of x] by (cases "x = 0") (simp_all add: fl64_0 less_eq_real_def)

lemma fl64_mono:
  assumes "0 \<le> x" "x \<le> y"
  shows "fl64 x \<le> fl64 y"
proof (cases "x = 0")
  case True
  then show ?thesis using assms fl64_nonneg[of y] by (simp add: fl64_0)
next
  case False
  then have x: "0 < x" and y: "0 < y" using assms by simp_all
  show ?thesis
  proof (cases "binexp x = binexp y")
    case True
    have "x * 2 powi (52 - binexp y) \<le> y * 2 powi (52 - binexp y)"
      using assms by (intro mult_right_mono) simp_all
    then have "rne (x * 2 powi (52 - binexp y)) \<le> rne (y * 2 powi (52 - binexp y))" by (rule rne_mono)
    then have "of_int (rne (x * 2 powi (52 - binexp y))) * 2 powi (binexp y - 52)
               \<le> of_int (rne (y * 2 powi (52 - binexp y))) * (2::real) powi (binexp y - 52)"
      by (intro mult_right_mono) simp_all
    then show ?thesis using x y True by (simp add: fl64_def)
  next
    case False
    then have "binexp x + 1 \<le> binexp y" using binexp_mono[OF x assms(2)] by linarith
    then have "(2::real) powi (binexp x + 1) \<le> 2 powi (binexp y)"
      by (intro power_int_increasing) simp_all
    then show ?thesis using fl64_bounds(2)[OF x] fl64_bounds(1)[OF y] by linarith
  qed
qed


lemma fl64_repr:
  assumes m: "0 < m" "m < 2 ^ 53"
  shows "fl64 (of_int m * 2 powi k) = of_int m * 2 powi k"
proof -
  define x :: real where "x = of_int m * 2 powi k"
  have x: "0 < x" using m by (simp add: x_def)
  have "real_of_int m < real_of_int (2 ^ 53)" using m(2) by (simp only: of_int_less_iff)
  then have "x < 2 ^ 53 * 2 powi k" unfolding x_def by (intro mult_strict_right_mono) simp_all
  also have "(2::real) ^ 53 * 2 powi k = 2 powi (53 + k)" by (simp only: two_pow_53 two_powi_add)
  finally have "2 powi (binexp x) < (2::real) powi (53 + k)"
    using binexp_bounds(1)[OF x] by linarith
  then have e: "binexp x < 53 + k"
  proof -
    have "\<not> 53 + k \<le> binexp x"
    proof
      assume "53 + k \<le> binexp x"
      then have "(2::real) powi (53 + k) \<le> 2 powi (binexp x)"
        by (intro power_int_increasing) simp_all
      with \<open>2 powi (binexp x) < (2::real) powi (53 + k)\<close> show False by linarith
    qed
    then show ?thesis by linarith
  qed
  define d where "d = nat (k + 52 - binexp x)"
  have d: "int d = k + 52 - binexp x" using e by (simp add: d_def)
  have pd: "(2::real) powi (k + 52 - binexp x) = 2 ^ d"
    unfolding d[symmetric] by (simp only: power_int_of_nat)
  have "x * 2 powi (52 - binexp x) = of_int m * (2 powi k * 2 powi (52 - binexp x))"
    by (simp add: x_def)
  also have "2 powi k * (2::real) powi (52 - binexp x) = 2 powi (k + 52 - binexp x)"
    by (simp only: two_powi_add) (simp add: algebra_simps)
  finally have s: "x * 2 powi (52 - binexp x) = of_int (m * 2 ^ d)"
    by (simp add: pd)
  have "fl64 x = of_int (m * 2 ^ d) * 2 powi (binexp x - 52)"
    unfolding fl64_pos_eq[OF x] s rne_of_int by (rule refl)
  also have "\<dots> = of_int m * (2 powi (k + 52 - binexp x) * 2 powi (binexp x - 52))"
    by (simp add: pd)
  also have "2 powi (k + 52 - binexp x) * (2::real) powi (binexp x - 52) = 2 powi k"
    by (simp only: two_powi_add) simp
  finally show ?thesis by (simp only: x_def)
qed

lemma fl64_pow2: "fl64 (2 powi k) = 2 powi k"
  using fl64_repr[of 1 k] by simp

lemma fl64_1: "fl64 1 = 1"
  using fl64_pow2[of 0] by simp

lemma fl64_idem:
  assumes "0 \<le> x"
  shows "fl64 (fl64 x) = fl64 x"
proof (cases "x = 0")
  case True
  then show ?thesis by (simp add: fl64_0)
next
  case False
  then have x: "0 < x" using assms by simp
  define n where "n = rne (x * 2 powi (52 - binexp x))"
  have n: "2 ^ 52 \<le> n" "n \<le> 2 ^ 53" using rne_scaled[OF x] by (simp_all add: n_def)
  have f: "fl64 x = of_int n * 2 powi (binexp x - 52)"
    unfolding n_def by (rule fl64_pos_eq[OF x])
  show ?thesis
  proof (cases "n = 2 ^ 53")
    case True
    have "fl64 x = 2 ^ 53 * 2 powi (binexp x - 52)" by (simp add: f True)
    also have "\<dots> = 2 powi (53 + (binexp x - 52))" by (simp only: two_pow_53 two_powi_add)
    finally show ?thesis by (simp only: fl64_pow2)
  next
    case False
    then have "n < 2 ^ 53" using n by linarith
    moreover have "0 < n" using n(1) by (smt (verit) zero_less_power)
    ultimately show ?thesis unfolding f by (rule fl64_repr[rotated])
  qed
qed

lemma fl64_ge:
  assumes "0 \<le> a" "a \<le> x" "fl64 a = a"
  shows "a \<le> fl64 x"
  using fl64_mono[OF assms(1,2)] assms(3) by simp

lemma fl64_le:
  assumes "0 \<le> x" "x \<le> b" "fl64 b = b"
  shows "fl64 x \<le> b"
  using fl64_mono[OF assms(1,2)] assms(3) by simp

lemma fl64_err:
  assumes "0 \<le> x" "x \<le> 1"
  shows "fl64 x \<le> x + 1 / 2 ^ 54"
proof -
  consider "x = 0" | "x = 1" | "0 < x" "x < 1" using assms by linarith
  then show ?thesis
  proof cases
    case 1
    then show ?thesis by (simp add: fl64_0)
  next
    case 2
    then show ?thesis by (simp add: fl64_1)
  next
    case 3
    have e: "binexp x \<le> - 1"
    proof -
      have "\<not> 0 \<le> binexp x"
      proof
        assume "0 \<le> binexp x"
        then have "(2::real) powi 0 \<le> 2 powi (binexp x)"
          by (intro power_int_increasing) simp_all
        with binexp_bounds(1)[OF 3(1)] 3(2) show False by simp
      qed
      then show ?thesis by linarith
    qed
    have p: "0 < (2::real) powi (binexp x - 52)" by simp
    have "real_of_int (rne (x * 2 powi (52 - binexp x))) * 2 powi (binexp x - 52)
          \<le> (x * 2 powi (52 - binexp x) + 1 / 2) * 2 powi (binexp x - 52)"
      using rne_err_upper[of "x * 2 powi (52 - binexp x)"] p by (intro mult_right_mono) simp_all
    also have "\<dots> = x * (2 powi (52 - binexp x) * 2 powi (binexp x - 52))
                    + 2 powi (- 1) * 2 powi (binexp x - 52)"
      by (simp add: algebra_simps)
    also have "2 powi (52 - binexp x) * (2::real) powi (binexp x - 52) = 1"
      by (simp only: two_powi_add) simp
    also have "2 powi (- 1) * (2::real) powi (binexp x - 52) = 2 powi (binexp x - 53)"
      by (simp only: two_powi_add) (simp add: algebra_simps)
    finally have "fl64 x \<le> x + 2 powi (binexp x - 53)"
      unfolding fl64_pos_eq[OF 3(1)] by simp
    moreover have "(2::real) powi (binexp x - 53) \<le> 2 powi (- 54)"
      using e by (intro power_int_increasing) simp_all
    moreover have "(2::real) powi (- 54) = 1 / 2 ^ 54"
      by (simp add: power_int_minus field_simps)
    ultimately show ?thesis by linarith
  qed
qed

lemma fl64_one_plus: "fl64 (1 + 1 / 2 ^ 54) = 1"
proof -
  have b: "binexp (1 + 1 / 2 ^ 54) = 0"
    by (rule binexp_unique) simp_all
  have s: "(1 + 1 / 2 ^ 54) * 2 powi 52 = (4503599627370496 + 1 / 4 :: real)"
    by simp
  have r: "rne (4503599627370496 + 1 / 4) = 4503599627370496"
  proof -
    have "\<lfloor>4503599627370496 + 1 / 4 :: real\<rfloor> = 4503599627370496"
      by (rule floor_unique) simp_all
    then show ?thesis by (simp add: rne_def Let_def)
  qed
  have nz: "(1 + 1 / 2 ^ 54 :: real) \<noteq> 0" by simp
  show ?thesis
    unfolding fl64_def b using nz by (simp only: if_False diff_zero s r) simp
qed

lemma fl64_le_1:
  assumes "0 \<le> x" "x \<le> 1 + 1 / 2 ^ 54"
  shows "fl64 x \<le> 1"
  using fl64_mono[OF assms] by (simp only: fl64_one_plus)

section \<open>The trials of GoogleNetResize\<close>

lemma py_int_nonneg: "0 \<le> x \<Longrightarrow> py_int x = \<lfloor>x\<rfloor>"
  by (simp add: py_int_def)

lemma rng_uniform_snd: "snd (rng_uniform low high g) = stl g"
  by (simp add: rng_uniform_def)

lemma rng_uniform_lower:
  assumes "fl64 low = low" "0 \<le> low" "low \<le> high" "0 \<le> shd g"
  shows "low \<le> fst (rng_uniform low high g)"
proof -
  have "0 \<le> fl64 (high - low)" using assms by (intro fl64_nonneg) simp
  then have "0 \<le> fl64 (high - low) * shd g" using assms by simp
  then have "0 \<le> fl64 (fl64 (high - low) * shd g)" by (rule fl64_nonneg)
  then have "low \<le> low + fl64 (fl64 (high - low) * shd g)" by simp
  from fl64_ge[OF assms(2) this assms(1)] show ?thesis by (simp add: rng_uniform_def)
qed

lemma rng_uniform_upper:
  assumes "0 \<le> low" "low \<le> high" "fl64 (low + fl64 (high - low)) \<le> high"
    and "0 \<le> shd g" "shd g < 1"
  shows "fst (rng_uniform low high g) \<le> high"
proof -
  define d where "d = fl64 (high - low)"
  have d0: "0 \<le> d" unfolding d_def using assms by (intro fl64_nonneg) simp
  have dd: "fl64 d = d" unfolding d_def using assms by (intro fl64_idem) simp
  have du0: "0 \<le> d * shd g" using d0 assms by simp
  have "d * shd g \<le> d * 1" using d0 assms by (intro mult_left_mono) simp_all
  then have du: "d * shd g \<le> d" by simp
  have y: "fl64 (d * shd g) \<le> d" by (rule fl64_le[OF du0 du dd])
  have y0: "0 \<le> fl64 (d * shd g)" by (rule fl64_nonneg[OF du0])
  have "fl64 (low + fl64 (d * shd g)) \<le> fl64 (low + d)"
    using y y0 assms(1) by (intro fl64_mono) simp_all
  then show ?thesis using assms(3) by (simp add: rng_uniform_def d_def)
qed

lemma one_closed:
  assumes "0 \<le> c" "c \<le> 1"
  shows "fl64 (c + fl64 (1 - c)) \<le> 1"
proof -
  have "fl64 (1 - c) \<le> (1 - c) + 1 / 2 ^ 54" using assms by (intro fl64_err) simp_all
  moreover have "0 \<le> fl64 (1 - c)" using assms by (intro fl64_nonneg) simp
  ultimately show ?thesis using assms by (intro fl64_le_1) simp_all
qed

lemma rng_uniform_unit: "unit_draw (shd g) \<Longrightarrow> rng_uniform 0 1 g = (shd g, stl g)"
  by (simp add: rng_uniform_def unit_draw_def fl64_1)

text \<open>The area fraction and the aspect ratio of a trial lie in their ranges.\<close>

lemma fraction_range:
  assumes "valid_params P" "unit_draw (shd g)"
  shows "crop_area_fraction P \<le> fst (rng_uniform (crop_area_fraction P) 1 g)"
    and "fst (rng_uniform (crop_area_fraction P) 1 g) \<le> 1"
proof -
  have c: "fl64 (crop_area_fraction P) = crop_area_fraction P"
    "0 \<le> crop_area_fraction P" "crop_area_fraction P \<le> 1"
    using assms(1) by (simp_all add: valid_params_def)
  have u: "0 \<le> shd g" "shd g < 1" using assms(2) by (simp_all add: unit_draw_def)
  show "crop_area_fraction P \<le> fst (rng_uniform (crop_area_fraction P) 1 g)"
    by (rule rng_uniform_lower[OF c u(1)])
  show "fst (rng_uniform (crop_area_fraction P) 1 g) \<le> 1"
    by (rule rng_uniform_upper[OF c(2,3) one_closed[OF c(2,3)] u])
qed

lemma aspect_range:
  assumes "valid_params P" "unit_draw (shd g)"
  shows "aspect_ratio_low P \<le> fst (rng_uniform (aspect_ratio_low P) (aspect_ratio_high P) g)"
    and "fst (rng_uniform (aspect_ratio_low P) (aspect_ratio_high P) g) \<le> aspect_ratio_high P"
proof -
  have c: "fl64 (aspect_ratio_low P) = aspect_ratio_low P"
    "0 \<le> aspect_ratio_low P" "aspect_ratio_low P \<le> aspect_ratio_high P"
    "fl64 (aspect_ratio_low P + fl64 (aspect_ratio_high P - aspect_ratio_low P))
          \<le> aspect_ratio_high P"
    using assms(1) by (simp_all add: valid_params_def)
  have u: "0 \<le> shd g" "shd g < 1" using assms(2) by (simp_all add: unit_draw_def)
  show "aspect_ratio_low P \<le> fst (rng_uniform (aspect_ratio_low P) (aspect_ratio_high P) g)"
    by (rule rng_uniform_lower[OF c(1,2,3) u(1)])
  show "fst (rng_uniform (aspect_ratio_low P) (aspect_ratio_high P) g) \<le> aspect_ratio_high P"
    by (rule rng_uniform_upper[OF c(2,3,4) u])
qed

lemma round_nearest_nonneg: "0 \<le> x \<Longrightarrow> 0 \<le> round_nearest x"
proof -
  assume "0 \<le> x"
  then have "0 \<le> fl64 (x + 1 / 2)" by (intro fl64_nonneg) simp
  then show ?thesis by (simp add: round_nearest_def)
qed

lemma py_int_round:
  assumes "0 \<le> x"
  shows "py_int (fl64 (x + 1 / 2)) = round_nearest x"
proof -
  have "0 \<le> fl64 (x + 1 / 2)" using assms by (intro fl64_nonneg) simp
  then show ?thesis by (simp add: py_int_def round_nearest_def)
qed

text \<open>One trial of the loop computes the candidate of the specification.\<close>

lemma trial_candidate_spec:
  assumes P: "valid_params P"
    and g: "unit_draw (shd g)" "unit_draw (shd (stl g))" "unit_draw (shd (stl (stl g)))"
  shows "trial_candidate P h w g = Inr (spec_candidate P h w g 0, sdrop 3 g)"
    and "0 \<le> fst (spec_candidate P h w g 0)" and "0 \<le> snd (spec_candidate P h w g 0)"
proof -
  define u where "u = fst (rng_uniform (crop_area_fraction P) 1 g)"
  define a where "a = fst (rng_uniform (aspect_ratio_low P) (aspect_ratio_high P) (stl g))"
  define ta where "ta = fl64 (u * fl64 (real (h * w)))"
  have c0: "0 \<le> crop_area_fraction P" and l0: "0 < aspect_ratio_low P"
    using P by (simp_all add: valid_params_def)
  have u0: "0 \<le> u" unfolding u_def using fraction_range(1)[OF P g(1)] c0 by linarith
  have a0: "0 < a" unfolding a_def using aspect_range(1)[OF P g(2)] l0 by linarith
  have "0 \<le> fl64 (real (h * w))" by (intro fl64_nonneg) simp
  then have ta0: "0 \<le> ta" unfolding ta_def using u0 by (intro fl64_nonneg) simp
  have n1: "0 \<le> fl64 (ta * a)" using ta0 a0 by (intro fl64_nonneg) simp
  have n2: "0 \<le> fl64 (ta / a)" using ta0 a0 by (intro fl64_nonneg) simp
  have r1: "rng_uniform (crop_area_fraction P) 1 g = (u, stl g)"
    by (simp add: u_def rng_uniform_def)
  have r2: "rng_uniform (aspect_ratio_low P) (aspect_ratio_high P) (stl g) = (a, stl (stl g))"
    by (simp add: a_def rng_uniform_def)
  have r3: "rng_uniform 0 1 (stl (stl g)) = (shd (stl (stl g)), stl (stl (stl g)))"
    by (rule rng_uniform_unit[OF g(3)])
  have q1: "np_sqrt (fl64 (ta * a)) = Some (fl64 (sqrt (fl64 (ta * a))))"
    using n1 by (simp only: np_sqrt_def not_less[symmetric] if_False)
  have q2: "np_sqrt (fl64 (ta / a)) = Some (fl64 (sqrt (fl64 (ta / a))))"
    using n2 by (simp only: np_sqrt_def not_less[symmetric] if_False)
  have s1n: "0 \<le> fl64 (sqrt (fl64 (ta * a)))" using n1 by (intro fl64_nonneg) simp
  have s2n: "0 \<le> fl64 (sqrt (fl64 (ta / a)))" using n2 by (intro fl64_nonneg) simp
  have s1: "py_int (fl64 (fl64 (sqrt (fl64 (ta * a))) + 1 / 2)) = round_nearest (fl64 (sqrt (fl64 (ta * a))))"
    by (rule py_int_round[OF s1n])
  have s2: "py_int (fl64 (fl64 (sqrt (fl64 (ta / a))) + 1 / 2)) = round_nearest (fl64 (sqrt (fl64 (ta / a))))"
    by (rule py_int_round[OF s2n])
  have an: "a \<noteq> 0" using a0 by simp
  have L: "trial_candidate P h w g =
        Inr (if shd (stl (stl g)) < 1 / 2
             then (round_nearest (fl64 (sqrt (fl64 (ta / a)))), round_nearest (fl64 (sqrt (fl64 (ta * a)))))
             else (round_nearest (fl64 (sqrt (fl64 (ta * a)))), round_nearest (fl64 (sqrt (fl64 (ta / a))))),
             stl (stl (stl g)))"
    unfolding trial_candidate_def Let_def r1 prod.case ta_def[symmetric] r2 q1 option.case s1 s2 q2 r3
    using an by simp
  have f: "spec_fraction P g 0 = u" by (simp add: spec_fraction_def u_def)
  have sa: "spec_aspect P g 0 = a" by (simp add: spec_aspect_def a_def)
  have sw: "spec_swap g 0 = (shd (stl (stl g)) < 1 / 2)"
    by (simp add: spec_swap_def eval_nat_numeral)
  have R: "spec_candidate P h w g 0 =
        (if shd (stl (stl g)) < 1 / 2
             then (round_nearest (fl64 (sqrt (fl64 (ta / a)))), round_nearest (fl64 (sqrt (fl64 (ta * a)))))
             else (round_nearest (fl64 (sqrt (fl64 (ta * a)))), round_nearest (fl64 (sqrt (fl64 (ta / a))))))"
    unfolding spec_candidate_def Let_def f sa sw ta_def[symmetric] by (rule refl)
  have d3: "sdrop 3 g = stl (stl (stl g))" by (simp add: eval_nat_numeral)
  show "trial_candidate P h w g = Inr (spec_candidate P h w g 0, sdrop 3 g)"
    unfolding L R d3 by (rule refl)
  show "0 \<le> fst (spec_candidate P h w g 0)" and "0 \<le> snd (spec_candidate P h w g 0)"
    unfolding R using round_nearest_nonneg[OF s1n] round_nearest_nonneg[OF s2n] by simp_all
qed

lemma sset_sdrop: "sset (sdrop n s) \<subseteq> sset s"
  by (auto simp: sset_range sdrop_snth)

lemma spec_candidate_Suc: "spec_candidate P h w g (Suc k) = spec_candidate P h w (sdrop 3 g) k"
proof -
  have a: "sdrop (3 * Suc k) g = sdrop (3 * k) (sdrop 3 g)" by (simp add: add.commute)
  have b: "sdrop (3 * Suc k + 1) g = sdrop (3 * k + 1) (sdrop 3 g)" by (simp add: add.commute)
  have c: "g !! (3 * Suc k + 2) = sdrop 3 g !! (3 * k + 2)" by (simp add: sdrop_snth add.commute)
  show ?thesis
    unfolding spec_candidate_def spec_fraction_def spec_aspect_def spec_swap_def a b c by (rule refl)
qed

lemma spec_candidate_sdrop: "spec_candidate P h w g k = spec_candidate P h w (sdrop (3 * k) g) 0"
proof (induction k arbitrary: g)
  case 0
  then show ?case by simp
next
  case (Suc k)
  have "sdrop (3 * k) (sdrop 3 g) = sdrop (3 * Suc k) g" by simp
  then show ?case using Suc.IH[of "sdrop 3 g"] by (simp only: spec_candidate_Suc)
qed

lemma find_map_index: "find Q (map f xs) = map_option f (find (\<lambda>x. Q (f x)) xs)"
  by (induction xs) simp_all

lemma find_upt_Suc:
  "find Q [0..<Suc n] = (if Q 0 then Some 0 else map_option Suc (find (\<lambda>k. Q (Suc k)) [0..<n]))"
proof -
  have "[0..<Suc n] = 0 # map Suc [0..<n]"
    by (simp only: map_Suc_upt upt_conv_Cons[of 0 "Suc n"] zero_less_Suc)
  then show ?thesis by (simp add: find_map_index)
qed

text \<open>The slice \<open>xs[a:a + c]\<close> with \<open>a\<close> and \<open>c\<close> not negative is the window of \<open>c\<close> elements from \<open>a\<close>.\<close>

lemma py_slice_window:
  assumes "0 \<le> a" "0 \<le> c"
  shows "py_slice xs a (a + c) = take (nat c) (drop (nat a) xs)"
proof -
  have s: "slice_index (length xs) a = min (length xs) (nat a)"
    using assms by (simp add: slice_index_def)
  have e: "slice_index (length xs) (a + c) = min (length xs) (nat a + nat c)"
    using assms by (simp add: slice_index_def nat_add_distrib)
  show ?thesis
  proof (cases "nat a \<le> length xs")
    case True
    then have "take (min (length xs) (nat a + nat c) - nat a) (drop (nat a) xs)
               = take (nat c) (drop (nat a) xs)"
      by (cases "nat a + nat c \<le> length xs") (simp_all add: min_def)
    then show ?thesis using True by (simp add: py_slice_def Let_def s e min_def)
  next
    case False
    then show ?thesis by (simp add: py_slice_def Let_def s e)
  qed
qed

lemma crop_window:
  assumes "0 \<le> y1" "0 \<le> hh" "0 \<le> x1" "0 \<le> ww"
  shows "crop img y1 (y1 + hh) x1 (x1 + ww) = spec_crop img x1 y1 ww hh"
  using assms by (simp add: crop_def spec_crop_def py_slice_window)

lemma shape2_spec: "shape2 img = (length img, spec_width img)"
  by (cases img) (simp_all add: shape2_def spec_width_def)

lemma randint_offset:
  assumes "c \<le> int n" "0 \<le> shd g" "shd g < 1"
  shows "(if int n = c then Inr (0, g) else rng_randint 0 (int n - c) g) = Inr (spec_offset n c g)"
    and "0 \<le> fst (spec_offset n c g)" and "fst (spec_offset n c g) + c \<le> int n"
    and "snd (spec_offset n c g) = g \<or> snd (spec_offset n c g) = stl g"
proof -
  show "(if int n = c then Inr (0, g) else rng_randint 0 (int n - c) g) = Inr (spec_offset n c g)"
    using assms by (simp add: rng_randint_def spec_offset_def)
  show "snd (spec_offset n c g) = g \<or> snd (spec_offset n c g) = stl g"
    by (simp add: spec_offset_def)
  show "0 \<le> fst (spec_offset n c g)" using assms by (simp add: spec_offset_def)
  show "fst (spec_offset n c g) + c \<le> int n"
  proof (cases "int n = c")
    case True
    then show ?thesis by (simp add: spec_offset_def)
  next
    case False
    then have p: "0 < int n - c" using assms by simp
    have "shd g * real_of_int (int n - c) < 1 * real_of_int (int n - c)"
      using assms p by (intro mult_strict_right_mono) simp_all
    then have "\<lfloor>shd g * real_of_int (int n - c)\<rfloor> < int n - c"
      by (simp add: floor_less_iff)
    then show ?thesis using False by (simp add: spec_offset_def)
  qed
qed

lemma crop_resize_spec:
  assumes c: "0 \<le> ww" "ww \<le> int (spec_width img)" "0 \<le> hh" "hh \<le> int (length img)"
    and g: "0 \<le> shd g" "shd g < 1" "0 \<le> shd (stl g)" "shd (stl g) < 1"
  shows "crop_resize cubic P img ww hh g = spec_crop_resize cubic (target_shape P) img (ww, hh) g"
proof -
  obtain x1 g1 where o1: "spec_offset (spec_width img) ww g = (x1, g1)"
    by (cases "spec_offset (spec_width img) ww g")
  obtain y1 g2 where o2: "spec_offset (length img) hh g1 = (y1, g2)"
    by (cases "spec_offset (length img) hh g1")
  note rx = randint_offset[OF c(2) g(1,2)]
  have g1: "g1 = g \<or> g1 = stl g" using rx(4) o1 by simp
  have e: "0 \<le> shd g1" "shd g1 < 1" using g1 g by auto
  note ry = randint_offset[OF c(4) e]
  have x1: "0 \<le> x1" using rx(2) o1 by simp
  have y1: "0 \<le> y1" using ry(2) o2 by simp
  have cr: "crop img y1 (y1 + hh) x1 (x1 + ww) = spec_crop img x1 y1 ww hh"
    by (rule crop_window[OF y1 c(3) x1 c(1)])
  show ?thesis
    unfolding crop_resize_def spec_crop_resize_def shape2_spec prod.case rx(1) o1 sum.case
      ry(1) o2 Let_def cr
    by (rule refl)
qed

lemma fallback_spec:
  "fallback cubic P img g =
     (case spec_fallback cubic (target_shape P) img of
        Inl e \<Rightarrow> Inl e
      | Inr out \<Rightarrow> Inr (out, g))"
  by (simp add: fallback_def spec_fallback_def split: sum.splits)

lemma unit_draws_sdrop:
  assumes "\<forall>u\<in>sset g. unit_draw u"
  shows "\<forall>u\<in>sset (sdrop n g). unit_draw u"
  using assms sset_sdrop[of n g] by blast

lemma unit_draws_head:
  assumes "\<forall>u\<in>sset g. unit_draw u"
  shows "unit_draw (shd g)" "unit_draw (shd (stl g))" "unit_draw (shd (stl (stl g)))"
  using assms by (simp_all add: stream.set_sel)

lemma trials_spec:
  assumes P: "valid_params P"
    and g: "\<forall>u\<in>sset g. unit_draw u"
  shows "GoogleNetResize_trials n cubic P img g =
           (case find (\<lambda>k. spec_fits (length img) (spec_width img)
                             (spec_candidate P (length img) (spec_width img) g k)) [0..<n] of
              None \<Rightarrow>
                (case spec_fallback cubic (target_shape P) img of
                   Inl e \<Rightarrow> Inl e
                 | Inr out \<Rightarrow> Inr (out, sdrop (3 * n) g))
            | Some k \<Rightarrow>
                spec_crop_resize cubic (target_shape P) img
                  (spec_candidate P (length img) (spec_width img) g k) (sdrop (3 * k + 3) g))"
  using g
proof (induction n arbitrary: g)
  case 0
  show ?case by (simp add: fallback_spec split: sum.splits)
next
  case (Suc n)
  define h where "h = length img"
  define w where "w = spec_width img"
  have sh: "shape2 img = (h, w)" by (simp add: shape2_spec h_def w_def)
  note d = unit_draws_head[OF Suc.prems]
  note tc = trial_candidate_spec[OF P d, of h w]
  obtain ww hh where c0: "spec_candidate P h w g 0 = (ww, hh)"
    by (cases "spec_candidate P h w g 0")
  have nn: "0 \<le> ww" "0 \<le> hh" using tc(2,3) c0 by simp_all
  have g3: "\<forall>u\<in>sset (sdrop 3 g). unit_draw u" by (rule unit_draws_sdrop[OF Suc.prems])
  note d3 = unit_draws_head[OF g3]
  have IH: "GoogleNetResize_trials n cubic P img (sdrop 3 g) =
           (case find (\<lambda>k. spec_fits h w (spec_candidate P h w (sdrop 3 g) k)) [0..<n] of
              None \<Rightarrow>
                (case spec_fallback cubic (target_shape P) img of
                   Inl e \<Rightarrow> Inl e
                 | Inr out \<Rightarrow> Inr (out, sdrop (3 * n) (sdrop 3 g)))
            | Some k \<Rightarrow>
                spec_crop_resize cubic (target_shape P) img
                  (spec_candidate P h w (sdrop 3 g) k) (sdrop (3 * k + 3) (sdrop 3 g)))"
    unfolding h_def w_def by (rule Suc.IH[OF g3])
  have F: "find (\<lambda>k. spec_fits h w (spec_candidate P h w g k)) [0..<Suc n] =
           (if spec_fits h w (ww, hh) then Some 0
            else map_option Suc (find (\<lambda>k. spec_fits h w (spec_candidate P h w (sdrop 3 g) k)) [0..<n]))"
    by (simp only: find_upt_Suc spec_candidate_Suc c0)
  have goal: "GoogleNetResize_trials (Suc n) cubic P img g =
           (case find (\<lambda>k. spec_fits h w (spec_candidate P h w g k)) [0..<Suc n] of
              None \<Rightarrow>
                (case spec_fallback cubic (target_shape P) img of
                   Inl e \<Rightarrow> Inl e
                 | Inr out \<Rightarrow> Inr (out, sdrop (3 * Suc n) g))
            | Some k \<Rightarrow>
                spec_crop_resize cubic (target_shape P) img
                  (spec_candidate P h w g k) (sdrop (3 * k + 3) g))"
  proof (cases "hh \<le> int h \<and> ww \<le> int w")
    case True
    have fits: "spec_fits h w (ww, hh)" using True by (simp add: spec_fits_def)
    have "GoogleNetResize_trials (Suc n) cubic P img g = crop_resize cubic P img ww hh (sdrop 3 g)"
      using True by (simp add: sh tc(1) c0)
    also have "\<dots> = spec_crop_resize cubic (target_shape P) img (ww, hh) (sdrop 3 g)"
    proof (rule crop_resize_spec)
      show "0 \<le> ww" "0 \<le> hh" by (rule nn)+
      show "ww \<le> int (spec_width img)" "hh \<le> int (length img)"
        using True by (simp_all add: h_def w_def)
      show "0 \<le> shd (sdrop 3 g)" "shd (sdrop 3 g) < 1"
        "0 \<le> shd (stl (sdrop 3 g))" "shd (stl (sdrop 3 g)) < 1"
        using d3 by (simp_all add: unit_draw_def)
    qed
    finally show ?thesis unfolding F using fits by (simp add: c0)
  next
    case False
    have nofit: "\<not> spec_fits h w (ww, hh)" using False by (auto simp: spec_fits_def)
    have L: "GoogleNetResize_trials (Suc n) cubic P img g =
             GoogleNetResize_trials n cubic P img (sdrop 3 g)"
      using False by (auto simp: sh tc(1) c0)
    have s1: "sdrop (3 * n) (sdrop 3 g) = sdrop (3 * Suc n) g" by simp
    have s2: "\<And>k. sdrop (3 * k + 3) (sdrop 3 g) = sdrop (3 * Suc k + 3) g"
      by (simp add: add.commute)
    show ?thesis
    proof (cases "find (\<lambda>k. spec_fits h w (spec_candidate P h w (sdrop 3 g) k)) [0..<n]")
      case None
      show ?thesis unfolding L IH F s1 using nofit by (simp add: None)
    next
      case (Some k)
      show ?thesis unfolding L IH F using nofit
        by (simp add: Some s2 spec_candidate_Suc)
    qed
  qed
  then show ?case unfolding h_def w_def .
qed

lemma augment_spec:
  assumes "valid_params P" "\<forall>u\<in>sset g. unit_draw u"
  shows "GoogleNetResize_augment cubic P img g = GoogleNetResize_spec cubic P img g"
proof -
  have "3 * 10 = (30::nat)" by simp
  then show ?thesis
    unfolding GoogleNetResize_augment_def GoogleNetResize_spec_def trials_spec[OF assms]
    by (simp only:)
qed

lemma trial_k:
  assumes P: "valid_params P" and g: "\<forall>u\<in>sset g. unit_draw u"
  shows "trial_candidate P h w (sdrop (3 * k) g) = Inr (spec_candidate P h w g k, sdrop (3 * k + 3) g)"
    and "crop_area_fraction P \<le> spec_fraction P g k" and "spec_fraction P g k \<le> 1"
    and "aspect_ratio_low P \<le> spec_aspect P g k" and "spec_aspect P g k \<le> aspect_ratio_high P"
    and "0 \<le> fst (spec_candidate P h w g k)" and "0 \<le> snd (spec_candidate P h w g k)"
proof -
  have gk: "\<forall>u\<in>sset (sdrop (3 * k) g). unit_draw u" by (rule unit_draws_sdrop[OF g])
  note d = unit_draws_head[OF gk]
  note tc = trial_candidate_spec[OF P d, of h w]
  have s: "sdrop 3 (sdrop (3 * k) g) = sdrop (3 * k + 3) g" by (simp add: add.commute)
  show "trial_candidate P h w (sdrop (3 * k) g) = Inr (spec_candidate P h w g k, sdrop (3 * k + 3) g)"
    using tc(1) unfolding s spec_candidate_sdrop[of P h w g k, symmetric] .
  show "0 \<le> fst (spec_candidate P h w g k)" "0 \<le> snd (spec_candidate P h w g k)"
    using tc(2,3) unfolding spec_candidate_sdrop[of P h w g k, symmetric] .
  show "crop_area_fraction P \<le> spec_fraction P g k" "spec_fraction P g k \<le> 1"
    unfolding spec_fraction_def by (rule fraction_range[OF P d(1)])+
  have s1: "sdrop (3 * k + 1) g = stl (sdrop (3 * k) g)" by simp
  show "aspect_ratio_low P \<le> spec_aspect P g k" "spec_aspect P g k \<le> aspect_ratio_high P"
    unfolding spec_aspect_def s1 by (rule aspect_range[OF P d(2)])+
qed

lemma offsets_inside:
  assumes c: "cw \<le> int (spec_width img)" "ch \<le> int (length img)"
    and g: "\<forall>u\<in>sset g. unit_draw u"
  shows "0 \<le> fst (spec_offset (spec_width img) cw g)
     \<and> fst (spec_offset (spec_width img) cw g) + cw \<le> int (spec_width img)
     \<and> 0 \<le> fst (spec_offset (length img) ch (snd (spec_offset (spec_width img) cw g)))
     \<and> fst (spec_offset (length img) ch (snd (spec_offset (spec_width img) cw g))) + ch
          \<le> int (length img)"
proof -
  note d = unit_draws_head[OF g]
  have u: "0 \<le> shd g" "shd g < 1" "0 \<le> shd (stl g)" "shd (stl g) < 1"
    using d by (simp_all add: unit_draw_def)
  note rx = randint_offset[OF c(1) u(1,2)]
  have e: "0 \<le> shd (snd (spec_offset (spec_width img) cw g))"
          "shd (snd (spec_offset (spec_width img) cw g)) < 1"
    using rx(4) u by auto
  note ry = randint_offset[OF c(2) e]
  show ?thesis using rx(2,3) ry(2,3) by simp
qed

section \<open>GoogleNetResize on examples\<close>

lemma fl64_dyadic:
  assumes "0 < m" "m < 2 ^ 53"
  shows "fl64 (of_int m / 2 ^ n) = of_int m / 2 ^ n"
proof -
  have "(2::real) powi (- int n) = 1 / 2 ^ n"
    by (simp add: power_int_minus field_simps)
  then show ?thesis using fl64_repr[OF assms, of "- int n"] by simp
qed

lemma fl64_in:
  assumes "a \<le> x" "x \<le> b" "0 \<le> a" "fl64 a = a" "fl64 b = b"
  shows "a \<le> fl64 x \<and> fl64 x \<le> b"
proof -
  have "0 \<le> x" using assms by linarith
  from fl64_ge[OF assms(3,1,4)] fl64_le[OF this assms(2,5)] show ?thesis by simp
qed

lemma dyadics:
  "fl64 (1 / 16) = 1 / 16" "fl64 (1 / 8) = 1 / 8" "fl64 (1 / 4) = 1 / 4" "fl64 (1 / 2) = 1 / 2"
  "fl64 (3 / 4) = 3 / 4" "fl64 (7 / 8) = 7 / 8" "fl64 (15 / 16) = 15 / 16"
  "fl64 (5 / 4) = 5 / 4" "fl64 (11 / 8) = 11 / 8" "fl64 (15 / 8) = 15 / 8"
  "fl64 (5 / 8) = 5 / 8" "fl64 (5 / 16) = 5 / 16" "fl64 (17 / 16) = 17 / 16"
  "fl64 (7 / 32) = 7 / 32" "fl64 (15 / 64) = 15 / 64" "fl64 (9 / 32) = 9 / 32"
  "fl64 (23 / 64) = 23 / 64" "fl64 (27 / 32) = 27 / 32" "fl64 (69 / 64) = 69 / 64"
  "fl64 (121 / 64) = 121 / 64" "fl64 (49 / 256) = 49 / 256" "fl64 (7 / 16) = 7 / 16"
  "fl64 3 = 3"
  using fl64_dyadic[of 1 4] fl64_dyadic[of 1 3] fl64_dyadic[of 1 2] fl64_dyadic[of 1 1]
    fl64_dyadic[of 3 2] fl64_dyadic[of 7 3] fl64_dyadic[of 15 4]
    fl64_dyadic[of 5 2] fl64_dyadic[of 11 3] fl64_dyadic[of 15 3]
    fl64_dyadic[of 5 3] fl64_dyadic[of 5 4] fl64_dyadic[of 17 4]
    fl64_dyadic[of 7 5] fl64_dyadic[of 15 6] fl64_dyadic[of 9 5]
    fl64_dyadic[of 23 6] fl64_dyadic[of 27 5] fl64_dyadic[of 69 6]
    fl64_dyadic[of 121 6] fl64_dyadic[of 49 8] fl64_dyadic[of 7 4]
    fl64_dyadic[of 3 0]
  by simp_all

text \<open>The default parameters: where the doubles nearest to 0.08 and to 1.333 lie.\<close>

lemma default_fraction:
  "1 / 16 \<le> fl64 (2 / 25)" "fl64 (2 / 25) \<le> 1 / 8" "fl64 (fl64 (2 / 25)) = fl64 (2 / 25)"
proof -
  show "1 / 16 \<le> fl64 (2 / 25)" by (rule fl64_ge[OF _ _ dyadics(1)]) simp_all
  show "fl64 (2 / 25) \<le> 1 / 8" by (rule fl64_le[OF _ _ dyadics(2)]) simp_all
  show "fl64 (fl64 (2 / 25)) = fl64 (2 / 25)" by (rule fl64_idem) simp
qed

lemma default_high:
  "5 / 4 \<le> fl64 (1333 / 1000)" "fl64 (1333 / 1000) \<le> 11 / 8"
  "fl64 (fl64 (1333 / 1000)) = fl64 (1333 / 1000)"
  "fl64 (fl64 (1333 / 1000) - 3 / 4) = fl64 (1333 / 1000) - 3 / 4"
proof -
  show lo: "5 / 4 \<le> fl64 (1333 / 1000)" by (rule fl64_ge[OF _ _ dyadics(8)]) simp_all
  show "fl64 (1333 / 1000) \<le> 11 / 8" by (rule fl64_le[OF _ _ dyadics(9)]) simp_all
  show "fl64 (fl64 (1333 / 1000)) = fl64 (1333 / 1000)" by (rule fl64_idem) simp
  have b: "binexp (1333 / 1000) = 0" by (rule binexp_unique) simp_all
  define n where "n = rne ((1333 / 1000) * 2 powi (52 - binexp (1333 / 1000)))"
  have n: "2 ^ 52 \<le> n" "n \<le> 2 ^ 53"
    unfolding n_def by (rule rne_scaled, simp)+
  have H: "fl64 (1333 / 1000) = of_int n * 2 powi (- 52)"
    using fl64_pos_eq[of "1333 / 1000"] by (simp add: n_def b)
  have q: "(3 / 4 :: real) = of_int (3 * 2 ^ 50) * 2 powi (- 52)"
    by (simp add: power_int_minus)
  have d: "fl64 (1333 / 1000) - 3 / 4 = of_int (n - 3 * 2 ^ 50) * 2 powi (- 52)"
    unfolding H by (subst q) (simp add: algebra_simps)
  have "0 < n - 3 * 2 ^ 50" "n - 3 * 2 ^ 50 < 2 ^ 53" using n by simp_all
  from fl64_repr[OF this, of "- 52"] show "fl64 (fl64 (1333 / 1000) - 3 / 4) = fl64 (1333 / 1000) - 3 / 4"
    unfolding d .
qed

lemma valid_params_default: "valid_params GoogleNetResize_default"
proof -
  have c1: "fl64 (2 / 25) \<le> 1" using default_fraction(2) by linarith
  have c0: "0 \<le> fl64 (2 / 25)" using default_fraction(1) by linarith
  have h: "3 / 4 \<le> fl64 (1333 / 1000)" using default_high(1) by linarith
  have "fl64 (3 / 4 + fl64 (fl64 (1333 / 1000) - 3 / 4)) = fl64 (1333 / 1000)"
    by (simp add: default_high(3,4))
  then show ?thesis
    using c0 c1 h by (simp add: valid_params_def GoogleNetResize_default_def default_fraction(3)
           default_high(3) dyadics(5))
qed

lemma valid_params_small_target: "valid_params small_target"
  using valid_params_default by (simp add: valid_params_def small_target_def)

text \<open>Where the rounded square root is 0 and where it is 1.\<close>

lemma sqrt_le_dyadic:
  assumes "0 \<le> b" "x \<le> b\<^sup>2"
  shows "sqrt x \<le> b"
proof -
  have "sqrt x \<le> sqrt (b\<^sup>2)" using assms(2) by (simp only: real_sqrt_le_iff)
  then show ?thesis using assms(1) by (simp only: real_sqrt_abs abs_of_nonneg)
qed

lemma sqrt_ge_dyadic:
  assumes "0 \<le> a" "a\<^sup>2 \<le> x"
  shows "a \<le> sqrt x"
proof -
  have "sqrt (a\<^sup>2) \<le> sqrt x" using assms(2) by (simp only: real_sqrt_le_iff)
  then show ?thesis using assms(1) by (simp only: real_sqrt_abs abs_of_nonneg)
qed

lemma round_sqrt_zero:
  assumes "0 \<le> x" "x \<le> 49 / 256"
  shows "round_nearest (fl64 (sqrt (fl64 x))) = 0"
proof -
  have x0: "0 \<le> fl64 x" by (rule fl64_nonneg[OF assms(1)])
  have x1: "fl64 x \<le> 49 / 256" by (rule fl64_le[OF assms dyadics(21)])
  have s0: "0 \<le> sqrt (fl64 x)" using x0 by simp
  have "fl64 x \<le> (7 / 16)\<^sup>2" using x1 by (simp add: power2_eq_square)
  then have s1: "sqrt (fl64 x) \<le> 7 / 16" by (intro sqrt_le_dyadic) simp_all
  have r0: "0 \<le> fl64 (sqrt (fl64 x))" by (rule fl64_nonneg[OF s0])
  have r1: "fl64 (sqrt (fl64 x)) \<le> 7 / 16" by (rule fl64_le[OF s0 s1 dyadics(22)])
  have t: "0 \<le> fl64 (sqrt (fl64 x)) + 1 / 2" "fl64 (sqrt (fl64 x)) + 1 / 2 \<le> 15 / 16"
    using r0 r1 by simp_all
  have "0 \<le> fl64 (fl64 (sqrt (fl64 x)) + 1 / 2)" by (rule fl64_nonneg[OF t(1)])
  moreover have "fl64 (fl64 (sqrt (fl64 x)) + 1 / 2) \<le> 15 / 16"
    by (rule fl64_le[OF t dyadics(7)])
  ultimately show ?thesis unfolding round_nearest_def by (intro floor_unique) simp_all
qed

lemma round_sqrt_one:
  assumes "1 / 4 \<le> x" "x \<le> 121 / 64"
  shows "round_nearest (fl64 (sqrt (fl64 x))) = 1"
proof -
  from fl64_in[OF assms _ dyadics(3) dyadics(20)]
  have x: "1 / 4 \<le> fl64 x" "fl64 x \<le> 121 / 64" by simp_all
  have "(1 / 2)\<^sup>2 \<le> fl64 x" using x(1) by (simp add: power2_eq_square)
  then have s0: "1 / 2 \<le> sqrt (fl64 x)" by (intro sqrt_ge_dyadic) simp_all
  have "fl64 x \<le> (11 / 8)\<^sup>2" using x(2) by (simp add: power2_eq_square)
  then have s1: "sqrt (fl64 x) \<le> 11 / 8" by (intro sqrt_le_dyadic) simp_all
  from fl64_in[OF s0 s1 _ dyadics(4) dyadics(9)]
  have r: "1 / 2 \<le> fl64 (sqrt (fl64 x))" "fl64 (sqrt (fl64 x)) \<le> 11 / 8" by simp_all
  have "1 \<le> fl64 (sqrt (fl64 x)) + 1 / 2" "fl64 (sqrt (fl64 x)) + 1 / 2 \<le> 15 / 8"
    using r by simp_all
  from fl64_in[OF this _ fl64_1 dyadics(10)]
  have "1 \<le> fl64 (fl64 (sqrt (fl64 x)) + 1 / 2)" "fl64 (fl64 (sqrt (fl64 x)) + 1 / 2) \<le> 15 / 8"
    by simp_all
  then show ?thesis unfolding round_nearest_def by (intro floor_unique) simp_all
qed

lemma unit_draw_values:
  "unit_draw 0" "unit_draw (1 / 4)" "unit_draw (1 / 2)" "unit_draw (3 / 4)"
  by (simp_all add: unit_draw_def fl64_0 dyadics)

lemma middle_crop_draws_unit: "\<forall>u\<in>sset middle_crop_draws. unit_draw u"
  by (auto simp: middle_crop_draws_def unit_draw_values)

lemma empty_crop_draws_unit: "\<forall>u\<in>sset empty_crop_draws. unit_draw u"
  by (auto simp: empty_crop_draws_def unit_draw_values)

text \<open>
  The first trial on a row of three pixels with the draws 1/4 and 1/2: the fraction lies
  between 9/32 and 23/64, the aspect ratio between 1 and 17/16, and the candidate is one
  pixel.
\<close>

lemma middle_fraction:
  "9 / 32 \<le> spec_fraction small_target middle_crop_draws 0"
  "spec_fraction small_target middle_crop_draws 0 \<le> 23 / 64"
proof -
  define c where "c = fl64 (2 / 25)"
  have c: "1 / 16 \<le> c" "c \<le> 1 / 8" unfolding c_def by (rule default_fraction)+
  have "7 / 8 \<le> 1 - c" "1 - c \<le> 15 / 16" using c by simp_all
  from fl64_in[OF this _ dyadics(6) dyadics(7)]
  have d: "7 / 8 \<le> fl64 (1 - c)" "fl64 (1 - c) \<le> 15 / 16" by simp_all
  have "7 / 32 \<le> fl64 (1 - c) * (1 / 4)" "fl64 (1 - c) * (1 / 4) \<le> 15 / 64" using d by simp_all
  from fl64_in[OF this _ dyadics(14) dyadics(15)]
  have y: "7 / 32 \<le> fl64 (fl64 (1 - c) * (1 / 4))" "fl64 (fl64 (1 - c) * (1 / 4)) \<le> 15 / 64"
    by simp_all
  have "9 / 32 \<le> c + fl64 (fl64 (1 - c) * (1 / 4))" "c + fl64 (fl64 (1 - c) * (1 / 4)) \<le> 23 / 64"
    using c y by simp_all
  from fl64_in[OF this _ dyadics(16) dyadics(17)]
  have f: "9 / 32 \<le> fl64 (c + fl64 (fl64 (1 - c) * (1 / 4)))"
          "fl64 (c + fl64 (fl64 (1 - c) * (1 / 4))) \<le> 23 / 64"
    by simp_all
  have e: "spec_fraction small_target middle_crop_draws 0 = fl64 (c + fl64 (fl64 (1 - c) * (1 / 4)))"
    by (simp add: spec_fraction_def rng_uniform_def small_target_def GoogleNetResize_default_def
          middle_crop_draws_def c_def)
  show "9 / 32 \<le> spec_fraction small_target middle_crop_draws 0"
    and "spec_fraction small_target middle_crop_draws 0 \<le> 23 / 64"
    unfolding e by (rule f)+
qed

lemma middle_aspect:
  "1 \<le> spec_aspect small_target middle_crop_draws 0"
  "spec_aspect small_target middle_crop_draws 0 \<le> 17 / 16"
proof -
  define H where "H = fl64 (1333 / 1000)"
  have H: "5 / 4 \<le> H" "H \<le> 11 / 8" unfolding H_def by (rule default_high)+
  have "1 / 2 \<le> H - 3 / 4" "H - 3 / 4 \<le> 5 / 8" using H by simp_all
  from fl64_in[OF this _ dyadics(4) dyadics(11)]
  have d: "1 / 2 \<le> fl64 (H - 3 / 4)" "fl64 (H - 3 / 4) \<le> 5 / 8" by simp_all
  have "1 / 4 \<le> fl64 (H - 3 / 4) * (1 / 2)" "fl64 (H - 3 / 4) * (1 / 2) \<le> 5 / 16" using d by simp_all
  from fl64_in[OF this _ dyadics(3) dyadics(12)]
  have y: "1 / 4 \<le> fl64 (fl64 (H - 3 / 4) * (1 / 2))" "fl64 (fl64 (H - 3 / 4) * (1 / 2)) \<le> 5 / 16"
    by simp_all
  have "1 \<le> 3 / 4 + fl64 (fl64 (H - 3 / 4) * (1 / 2))" "3 / 4 + fl64 (fl64 (H - 3 / 4) * (1 / 2)) \<le> 17 / 16"
    using y by simp_all
  from fl64_in[OF this _ fl64_1 dyadics(13)]
  have f: "1 \<le> fl64 (3 / 4 + fl64 (fl64 (H - 3 / 4) * (1 / 2)))"
          "fl64 (3 / 4 + fl64 (fl64 (H - 3 / 4) * (1 / 2))) \<le> 17 / 16"
    by simp_all
  have e: "spec_aspect small_target middle_crop_draws 0 = fl64 (3 / 4 + fl64 (fl64 (H - 3 / 4) * (1 / 2)))"
    by (simp add: spec_aspect_def rng_uniform_def small_target_def GoogleNetResize_default_def
          middle_crop_draws_def H_def)
  show "1 \<le> spec_aspect small_target middle_crop_draws 0"
    and "spec_aspect small_target middle_crop_draws 0 \<le> 17 / 16"
    unfolding e by (rule f)+
qed

lemma middle_candidate: "spec_candidate small_target 1 3 middle_crop_draws 0 = (1, 1)"
proof -
  define F where "F = spec_fraction small_target middle_crop_draws 0"
  define A where "A = spec_aspect small_target middle_crop_draws 0"
  define ta where "ta = fl64 (F * fl64 (real (1 * 3)))"
  have F: "9 / 32 \<le> F" "F \<le> 23 / 64" unfolding F_def by (rule middle_fraction)+
  have A: "1 \<le> A" "A \<le> 17 / 16" unfolding A_def by (rule middle_aspect)+
  have three: "fl64 (real (1 * 3)) = 3" by (simp add: dyadics)
  have "27 / 32 \<le> F * 3" "F * 3 \<le> 69 / 64" using F by simp_all
  from fl64_in[OF this _ dyadics(18) dyadics(19)]
  have ta: "27 / 32 \<le> ta" "ta \<le> 69 / 64" unfolding ta_def three by simp_all
  have m1: "1 / 4 \<le> ta * A"
  proof -
    have "27 / 32 * 1 \<le> ta * A" using ta A by (intro mult_mono) simp_all
    then show ?thesis by simp
  qed
  have m2: "ta * A \<le> 121 / 64"
  proof -
    have "ta * A \<le> 69 / 64 * (17 / 16)" using ta A by (intro mult_mono) simp_all
    then show ?thesis by simp
  qed
  have d1: "1 / 4 \<le> ta / A"
  proof -
    have "27 / 32 / (17 / 16) \<le> ta / A" using ta A by (intro frac_le) simp_all
    then show ?thesis by simp
  qed
  have d2: "ta / A \<le> 121 / 64"
  proof -
    have "ta / A \<le> 69 / 64 / 1" using ta A by (intro frac_le) simp_all
    then show ?thesis by simp
  qed
  have sw: "\<not> spec_swap middle_crop_draws 0"
    by (simp add: spec_swap_def middle_crop_draws_def eval_nat_numeral)
  show ?thesis
    unfolding spec_candidate_def Let_def F_def[symmetric] A_def[symmetric] ta_def[symmetric]
    using sw round_sqrt_one[OF m1 m2] round_sqrt_one[OF d1 d2] by simp
qed

lemma find_first: "Q 0 \<Longrightarrow> find Q [0..<10] = Some 0"
proof -
  assume "Q 0"
  then have "find Q [0..<Suc 9] = Some 0" by (simp only: find_upt_Suc if_True)
  then show ?thesis by simp
qed

lemma spec_middle_crop:
  "GoogleNetResize_spec nearest small_target [[(1, 2, 3), (4, 5, 6), (7, 8, 9)]] middle_crop_draws =
     Inr ([[(4, 5, 6), (4, 5, 6)], [(4, 5, 6), (4, 5, 6)]], sconst 0)"
proof -
  have t: "target_shape small_target = 2" by (simp add: small_target_def)
  have up: "[0..<2] = [0, Suc 0]" by (simp add: eval_nat_numeral)
  have w: "spec_width [[(1, 2, 3), (4, 5, 6), (7, 8, 9)]] = 3" for a b c :: pixel
    by (simp add: spec_width_def)
  have l: "length [[(1, 2, 3), (4, 5, 6), (7, 8, 9) :: pixel]] = 1" by simp
  have f: "find (\<lambda>k. spec_fits 1 3 (spec_candidate small_target 1 3 middle_crop_draws k)) [0..<10] = Some 0"
    by (rule find_first) (simp only: middle_candidate spec_fits_def prod.case, simp)
  have d: "sdrop (3 * 0 + 3) middle_crop_draws = 1 / 2 ## sconst 0"
    by (simp add: middle_crop_draws_def eval_nat_numeral)
  show ?thesis
    unfolding GoogleNetResize_spec_def w l f option.case middle_candidate d t
    by (simp add: spec_crop_resize_def spec_offset_def spec_width_def spec_crop_def
          cv2_resize_def nearest_def up)
qed

section \<open>The loop of GoogleNetResize and its specification\<close>

text \<open>
  Claim C3: for parameters that are doubles with \<open>0 \<le> crop_area_fraction \<le> 1\<close> and
  \<open>0 < aspect_ratio_low \<le> aspect_ratio_high\<close> (\<open>valid_params\<close>) and unit draws that are doubles
  of \<open>[0, 1)\<close>, \<open>_augment\<close> does what the specification says. The loop of lines 35-47 with
  the fallback of lines 48-50 computes \<open>GoogleNetResize_spec\<close>: at most ten trials, the first
  candidate with \<open>hh \<le> h\<close> and \<open>ww \<le> w\<close> cropped at a random offset and resized to the target
  square with the cubic interpolation, and otherwise the resize of the shortest edge
  followed by the centre crop. Each trial \<open>k\<close> of the ten, started in the random state after
  \<open>3k\<close> draws, raises nothing, computes the candidate of the specification and leaves the
  state after \<open>3k + 3\<close> draws; its area fraction lies between \<open>crop_area_fraction\<close> and 1 and
  its aspect ratio between \<open>aspect_ratio_low\<close> and \<open>aspect_ratio_high\<close>; width and height are
  swapped when the third draw is below one half; and the offsets drawn after it for a
  candidate that fits are not negative and keep the window inside the image.
\<close>

theorem GoogleNetResize_augment_trials:
  assumes P: "valid_params P" and g: "\<forall>u\<in>sset g. unit_draw u"
  shows "GoogleNetResize_augment cubic P img g = GoogleNetResize_spec cubic P img g
     \<and> (\<forall>k<10.
          trial_candidate P h w (sdrop (3 * k) g) = Inr (spec_candidate P h w g k, sdrop (3 * k + 3) g)
          \<and> crop_area_fraction P \<le> spec_fraction P g k \<and> spec_fraction P g k \<le> 1
          \<and> aspect_ratio_low P \<le> spec_aspect P g k \<and> spec_aspect P g k \<le> aspect_ratio_high P
          \<and> (\<forall>cw ch. cw \<le> int (spec_width img) \<and> ch \<le> int (length img) \<longrightarrow>
                0 \<le> fst (spec_offset (spec_width img) cw (sdrop (3 * k + 3) g))
                \<and> fst (spec_offset (spec_width img) cw (sdrop (3 * k + 3) g)) + cw \<le> int (spec_width img)
                \<and> 0 \<le> fst (spec_offset (length img) ch
                              (snd (spec_offset (spec_width img) cw (sdrop (3 * k + 3) g))))
                \<and> fst (spec_offset (length img) ch
                          (snd (spec_offset (spec_width img) cw (sdrop (3 * k + 3) g)))) + ch
                     \<le> int (length img)))"
proof -
  have a: "GoogleNetResize_augment cubic P img g = GoogleNetResize_spec cubic P img g"
    by (rule augment_spec[OF P g])
  have b: "\<And>k. \<forall>u\<in>sset (sdrop (3 * k + 3) g). unit_draw u"
    by (rule unit_draws_sdrop[OF g])
  show ?thesis
    using a trial_k(1-5)[OF P g] offsets_inside[OF _ _ b] by blast
qed

theorem GoogleNetResize_augment_trials_witness:
  "valid_params small_target
   \<and> sset middle_crop_draws = {1 / 4, 1 / 2, 3 / 4, 0}
   \<and> unit_draw (1 / 4) \<and> unit_draw (1 / 2) \<and> unit_draw (3 / 4) \<and> unit_draw 0
   \<and> GoogleNetResize_augment nearest small_target [[(1, 2, 3), (4, 5, 6), (7, 8, 9)]] middle_crop_draws =
       GoogleNetResize_spec nearest small_target [[(1, 2, 3), (4, 5, 6), (7, 8, 9)]] middle_crop_draws
   \<and> GoogleNetResize_augment nearest small_target [[(1, 2, 3), (4, 5, 6), (7, 8, 9)]] middle_crop_draws =
       Inr ([[(4, 5, 6), (4, 5, 6)], [(4, 5, 6), (4, 5, 6)]], sconst 0)
   \<and> trial_candidate small_target 1 3 middle_crop_draws = Inr ((1, 1), 1 / 2 ## sconst 0)
   \<and> crop_area_fraction small_target \<le> spec_fraction small_target middle_crop_draws 0
   \<and> spec_fraction small_target middle_crop_draws 0 \<le> 1
   \<and> aspect_ratio_low small_target \<le> spec_aspect small_target middle_crop_draws 0
   \<and> spec_aspect small_target middle_crop_draws 0 \<le> aspect_ratio_high small_target
   \<and> spec_offset 3 1 (1 / 2 ## sconst 0) = (1, sconst 0)"
proof -
  have s: "sset middle_crop_draws = {1 / 4, 1 / 2, 3 / 4, 0}"
    by (auto simp: middle_crop_draws_def)
  have d: "sdrop (3 * 0 + 3) middle_crop_draws = 1 / 2 ## sconst 0"
    by (simp add: middle_crop_draws_def eval_nat_numeral)
  have o: "spec_offset 3 1 (1 / 2 ## sconst 0) = (1, sconst 0)"
    by (simp add: spec_offset_def)
  note t = GoogleNetResize_augment_trials[OF valid_params_small_target middle_crop_draws_unit,
      of nearest "[[(1, 2, 3), (4, 5, 6), (7, 8, 9)]]" 1 3]
  have z: "(0::nat) < 10" by simp
  have z0: "sdrop (3 * 0) middle_crop_draws = middle_crop_draws" by simp
  from t have a: "GoogleNetResize_augment nearest small_target [[(1, 2, 3), (4, 5, 6), (7, 8, 9)]] middle_crop_draws =
       GoogleNetResize_spec nearest small_target [[(1, 2, 3), (4, 5, 6), (7, 8, 9)]] middle_crop_draws"
    by (rule conjunct1)
  from t z have "trial_candidate small_target 1 3 (sdrop (3 * 0) middle_crop_draws) =
       Inr (spec_candidate small_target 1 3 middle_crop_draws 0, sdrop (3 * 0 + 3) middle_crop_draws)
     \<and> crop_area_fraction small_target \<le> spec_fraction small_target middle_crop_draws 0
     \<and> spec_fraction small_target middle_crop_draws 0 \<le> 1
     \<and> aspect_ratio_low small_target \<le> spec_aspect small_target middle_crop_draws 0
     \<and> spec_aspect small_target middle_crop_draws 0 \<le> aspect_ratio_high small_target"
    by blast
  then have b: "trial_candidate small_target 1 3 middle_crop_draws = Inr ((1, 1), 1 / 2 ## sconst 0)"
    and c: "crop_area_fraction small_target \<le> spec_fraction small_target middle_crop_draws 0"
      "spec_fraction small_target middle_crop_draws 0 \<le> 1"
      "aspect_ratio_low small_target \<le> spec_aspect small_target middle_crop_draws 0"
      "spec_aspect small_target middle_crop_draws 0 \<le> aspect_ratio_high small_target"
    unfolding z0 d middle_candidate by blast+
  note a2 = trans[OF a spec_middle_crop]
  show ?thesis
    using valid_params_small_target s unit_draw_values a a2 b c o by simp
qed

section \<open>The output shape of GoogleNetResize\<close>

text \<open>
  On an image of one pixel the smallest fraction and the smallest aspect ratio give a
  target area of 0.08 and the products 0.06 and 0.1067, whose square roots round to 0.
\<close>

lemma empty_candidate: "spec_candidate GoogleNetResize_default 1 1 empty_crop_draws 0 = (0, 0)"
proof -
  define c where "c = fl64 (2 / 25)"
  have c: "1 / 16 \<le> c" "c \<le> 1 / 8" "fl64 c = c" unfolding c_def by (rule default_fraction)+
  have F: "spec_fraction GoogleNetResize_default empty_crop_draws 0 = c"
    by (simp add: spec_fraction_def rng_uniform_def GoogleNetResize_default_def
          empty_crop_draws_def fl64_0 c_def[symmetric] c(3))
  have A: "spec_aspect GoogleNetResize_default empty_crop_draws 0 = 3 / 4"
    by (simp add: spec_aspect_def rng_uniform_def GoogleNetResize_default_def
          empty_crop_draws_def fl64_0 dyadics)
  have ta: "fl64 (c * fl64 (real (1 * 1))) = c" by (simp add: fl64_1 c(3))
  have m: "0 \<le> c * (3 / 4)" "c * (3 / 4) \<le> 49 / 256" using c by simp_all
  have d: "0 \<le> c / (3 / 4)" "c / (3 / 4) \<le> 49 / 256" using c by simp_all
  have sw: "\<not> spec_swap empty_crop_draws 0"
    by (simp add: spec_swap_def empty_crop_draws_def eval_nat_numeral)
  show ?thesis
    unfolding spec_candidate_def Let_def F A ta
    using sw round_sqrt_zero[OF m] round_sqrt_zero[OF d] by simp
qed

lemma first_trial_accepted:
  assumes "shape2 img = (h, w)" "trial_candidate P h w g = Inr ((ww, hh), g')"
    and "hh \<le> int h" "ww \<le> int w"
  shows "GoogleNetResize_augment cubic P img g = crop_resize cubic P img ww hh g'"
proof -
  have "GoogleNetResize_trials (Suc 9) cubic P img g = crop_resize cubic P img ww hh g'"
    using assms by (simp del: Suc_numeral)
  then show ?thesis by (simp add: GoogleNetResize_augment_def)
qed

text \<open>
  Claim C2 says that every image of \<open>H \<ge> 1\<close> rows and \<open>W \<ge> 1\<close> columns comes back with
  \<open>target_shape\<close> rows of \<open>target_shape\<close> pixels. On an image of one pixel (\<open>H = W = 1\<close>), the
  default parameters and the draws above, the first trial gives \<open>ww = hh = 0\<close>; the test of
  line 42 has no lower bound and accepts it, the crop \<open>img[0:0, 0:0]\<close> has no pixel, and
  \<open>cv2.resize\<close> raises: no array comes back.
\<close>

theorem GoogleNetResize_augment_one_pixel:
  "shape2 [[p]] = (1, 1)
   \<and> trial_candidate GoogleNetResize_default 1 1 empty_crop_draws = Inr ((0, 0), sconst 0)
   \<and> GoogleNetResize_augment cubic GoogleNetResize_default [[p]] empty_crop_draws = Inl cv2_error"
proof -
  have sh: "shape2 [[p]] = (1, 1)" by (simp add: shape2_def)
  note d = unit_draws_head[OF empty_crop_draws_unit]
  have s: "sdrop 3 empty_crop_draws = sconst 0"
    by (simp add: empty_crop_draws_def eval_nat_numeral)
  have tc: "trial_candidate GoogleNetResize_default 1 1 empty_crop_draws = Inr ((0, 0), sconst 0)"
    using trial_candidate_spec(1)[OF valid_params_default d, of 1 1]
    by (simp only: empty_candidate s)
  have "GoogleNetResize_augment cubic GoogleNetResize_default [[p]] empty_crop_draws =
        crop_resize cubic GoogleNetResize_default [[p]] 0 0 (sconst 0)"
    by (rule first_trial_accepted[OF sh tc]) simp_all
  also have "\<dots> = Inl cv2_error"
    by (simp add: crop_resize_def shape2_def rng_randint_def crop_def py_slice_def
          slice_index_def cv2_resize_def)
  finally show ?thesis using sh tc by simp
qed

text \<open>
  Where an array comes back. A slice \<open>xs[a:a + n]\<close> inside the list has \<open>n\<close> elements, so
  a crop window inside the image has the shape of the window; a resize that returns has
  the shape asked for; and the fallback returns the target square.
\<close>

lemma length_py_slice:
  assumes "0 \<le> a" "0 \<le> n" "a + n \<le> int (length xs)"
  shows "length (py_slice xs a (a + n)) = nat n"
proof -
  have "slice_index (length xs) a = nat a" using assms by (simp add: slice_index_def)
  moreover have "slice_index (length xs) (a + n) = nat (a + n)"
    using assms by (simp add: slice_index_def)
  ultimately show ?thesis using assms by (simp add: py_slice_def Let_def nat_add_distrib)
qed

lemma set_py_slice: "set (py_slice xs a b) \<subseteq> set xs"
  by (auto simp: py_slice_def Let_def dest: in_set_takeD in_set_dropD)

lemma shape2_rect: "rect h w img \<Longrightarrow> 1 \<le> h \<Longrightarrow> shape2 img = (h, w)"
  by (cases img) (auto simp: rect_def shape2_def)

lemma rect_crop:
  assumes r: "rect h w img"
    and y: "0 \<le> y1" "0 \<le> hh" "y1 + hh \<le> int h"
    and x: "0 \<le> x1" "0 \<le> ww" "x1 + ww \<le> int w"
  shows "rect (nat hh) (nat ww) (crop img y1 (y1 + hh) x1 (x1 + ww))"
proof -
  have rows: "length (py_slice img y1 (y1 + hh)) = nat hh"
    using r y by (intro length_py_slice) (simp_all add: rect_def)
  have "length (py_slice row x1 (x1 + ww)) = nat ww" if "row \<in> set (py_slice img y1 (y1 + hh))" for row
  proof -
    have "row \<in> set img" using that set_py_slice[of img y1 "y1 + hh"] by auto
    then have "length row = w" using r by (simp add: rect_def list_all_iff)
    then show ?thesis using x by (intro length_py_slice) simp_all
  qed
  then show ?thesis using rows by (simp add: rect_def crop_def list_all_iff)
qed

lemma cv2_resize_rect:
  assumes "rect h w src" "1 \<le> h" "1 \<le> w" "1 \<le> width" "1 \<le> height"
  shows "\<exists>out. cv2_resize interp src (width, height) = Inr out \<and> rect height width out"
proof -
  have "src \<noteq> []" using assms by (auto simp: rect_def)
  moreover from this have "hd src \<in> set src" by simp
  then have "length (hd src) = w" using assms by (simp add: rect_def list_all_iff)
  then have "hd src \<noteq> []" using assms by auto
  ultimately show ?thesis
    using assms by (simp add: cv2_resize_def rect_def list_all_iff)
qed

lemma scaled_edge:
  assumes "1 \<le> s" "s \<le> l"
  shows "int t \<le> py_int (real t / real s * real l + 1 / 2)"
proof -
  have "real t * real s \<le> real t * real l" using assms by (intro mult_left_mono) simp_all
  then have "real t \<le> real t * real l / real s" using assms by (simp add: le_divide_eq)
  then have le: "real t \<le> real t / real s * real l + 1 / 2" by simp
  then have "0 \<le> real t / real s * real l + 1 / 2" by linarith
  then have "py_int (real t / real s * real l + 1 / 2) = \<lfloor>real t / real s * real l + 1 / 2\<rfloor>"
    by (simp add: py_int_def)
  moreover have "int t \<le> \<lfloor>real t / real s * real l + 1 / 2\<rfloor>"
    using le by (simp add: le_floor_iff)
  ultimately show ?thesis by simp
qed

lemma ResizeShortestEdge_rect:
  assumes r: "rect h w img" and hw: "1 \<le> h" "1 \<le> w" and t: "1 \<le> t"
  shows "\<exists>out a b. ResizeShortestEdge_augment cubic t img = Inr out \<and> rect a b out
           \<and> t \<le> a \<and> t \<le> b"
proof -
  have sh: "shape2 img = (h, w)" by (rule shape2_rect[OF r hw(1)])
  have m: "min h w \<noteq> 0" using hw by simp
  show ?thesis
  proof (cases "h < w")
    case True
    then have mh: "min h w = h" by simp
    define nw where "nw = nat (py_int (real t / real h * real w + 1 / 2))"
    have "int t \<le> py_int (real t / real h * real w + 1 / 2)"
      using hw True by (intro scaled_edge) simp_all
    then have nw: "t \<le> nw" by (simp add: nw_def)
    then have "1 \<le> nw" using t by simp
    from cv2_resize_rect[OF r hw this t, of cubic]
    obtain out where "cv2_resize cubic img (nw, t) = Inr out" "rect t nw out" by blast
    moreover have "ResizeShortestEdge_augment cubic t img = cv2_resize cubic img (nw, t)"
      using True m by (simp add: ResizeShortestEdge_augment_def sh mh nw_def Let_def)
    ultimately show ?thesis using nw by auto
  next
    case False
    then have mw: "min h w = w" by simp
    define nh where "nh = nat (py_int (real t / real w * real h + 1 / 2))"
    have "int t \<le> py_int (real t / real w * real h + 1 / 2)"
      using hw False by (intro scaled_edge) simp_all
    then have nh: "t \<le> nh" by (simp add: nh_def)
    then have "1 \<le> nh" using t by simp
    from cv2_resize_rect[OF r hw t this, of cubic]
    obtain out where "cv2_resize cubic img (t, nh) = Inr out" "rect nh t out" by blast
    moreover have "ResizeShortestEdge_augment cubic t img = cv2_resize cubic img (t, nh)"
      using False m by (simp add: ResizeShortestEdge_augment_def sh mw nh_def Let_def)
    ultimately show ?thesis using nh by auto
  qed
qed

lemma centre_offset:
  assumes "t \<le> a"
  shows "0 \<le> py_int (real_of_int (int a - int t) * (1 / 2))"
    and "py_int (real_of_int (int a - int t) * (1 / 2)) + int t \<le> int a"
proof -
  let ?d = "real_of_int (int a - int t) * (1 / 2)"
  have d: "0 \<le> ?d" using assms by simp
  then have p: "py_int ?d = \<lfloor>?d\<rfloor>" by (simp add: py_int_def)
  show "0 \<le> py_int ?d" unfolding p using d by simp
  have "?d \<le> real_of_int (int a - int t)" using assms by simp
  then have "\<lfloor>?d\<rfloor> \<le> \<lfloor>real_of_int (int a - int t)\<rfloor>" by (rule floor_mono)
  then have "\<lfloor>?d\<rfloor> \<le> int a - int t" by (simp only: floor_of_int)
  then show "py_int ?d + int t \<le> int a" unfolding p by simp
qed

lemma CenterCrop_rect:
  assumes r: "rect a b img" and t: "1 \<le> t" "t \<le> a" "t \<le> b"
  shows "rect t t (CenterCrop_augment t img)"
proof -
  have sh: "shape2 img = (a, b)" using r t by (intro shape2_rect) simp_all
  have "rect (nat (int t)) (nat (int t))
          (crop img (py_int (real_of_int (int a - int t) * (1 / 2)))
             (py_int (real_of_int (int a - int t) * (1 / 2)) + int t)
             (py_int (real_of_int (int b - int t) * (1 / 2)))
             (py_int (real_of_int (int b - int t) * (1 / 2)) + int t))"
    using r centre_offset[OF t(2)] centre_offset[OF t(3)] by (intro rect_crop) simp_all
  then show ?thesis by (simp add: CenterCrop_augment_def sh Let_def)
qed

lemma fallback_rect:
  assumes "rect h w img" "1 \<le> h" "1 \<le> w" "1 \<le> target_shape P"
  shows "\<exists>out. fallback cubic P img g = Inr (out, g) \<and> rect (target_shape P) (target_shape P) out"
proof -
  from ResizeShortestEdge_rect[OF assms, of cubic]
  obtain out a b where "ResizeShortestEdge_augment cubic (target_shape P) img = Inr out"
    "rect a b out" "target_shape P \<le> a" "target_shape P \<le> b" by blast
  then show ?thesis
    using CenterCrop_rect[of a b out "target_shape P"] assms(4) by (simp add: fallback_def)
qed

lemma cv2_resize_shape:
  "cv2_resize interp src (width, height) = Inr out \<Longrightarrow> rect height width out"
  by (auto simp: cv2_resize_def rect_def list_all_iff split: if_splits)

lemma crop_resize_shape:
  "crop_resize cubic P img ww hh g = Inr (out, g') \<Longrightarrow> rect (target_shape P) (target_shape P) out"
  by (auto simp: crop_resize_def Let_def split: prod.splits sum.splits if_splits
        dest: cv2_resize_shape)

lemma trials_shape:
  assumes r: "rect h w img" and hw: "1 \<le> h" "1 \<le> w" and t: "1 \<le> target_shape P"
  shows "GoogleNetResize_trials n cubic P img g = Inr (out, g') \<Longrightarrow>
         rect (target_shape P) (target_shape P) out"
proof (induction n arbitrary: g)
  case 0
  then show ?case using fallback_rect[OF r hw t, of cubic g] by auto
next
  case (Suc n)
  have sh: "shape2 img = (h, w)" by (rule shape2_rect[OF r hw(1)])
  show ?case
  proof (cases "trial_candidate P h w g")
    case (Inl e)
    then show ?thesis using Suc.prems by (simp add: sh)
  next
    case (Inr c)
    obtain ww hh g1 where c: "c = ((ww, hh), g1)" by (cases c) auto
    show ?thesis
    proof (cases "hh \<le> int h \<and> ww \<le> int w")
      case True
      then have "crop_resize cubic P img ww hh g1 = Inr (out, g')"
        using Suc.prems by (simp add: sh Inr c)
      then show ?thesis by (rule crop_resize_shape)
    next
      case False
      then have "GoogleNetResize_trials n cubic P img g1 = Inr (out, g')"
        using Suc.prems by (auto simp: sh Inr c)
      then show ?thesis by (rule Suc.IH)
    qed
  qed
qed

text \<open>
  Both return paths of \<open>_augment\<close> resize to the target square: on an image of \<open>H \<ge> 1\<close> rows
  and \<open>W \<ge> 1\<close> columns, an array that \<open>_augment\<close> returns has \<open>target_shape\<close> rows of
  \<open>target_shape\<close> pixels, whatever the draws.
\<close>

lemma GoogleNetResize_augment_returns_target_shape:
  assumes "rect h w img" "1 \<le> h" "1 \<le> w" "1 \<le> target_shape P"
    and "GoogleNetResize_augment cubic P img g = Inr (out, g')"
  shows "rect (target_shape P) (target_shape P) out"
  using trials_shape[OF assms(1-4)] assms(5) unfolding GoogleNetResize_augment_def by blast

end
